theory Spec2Isabelle
  imports Complex_Main "HOL-Library.AList" "HOL-Library.List_Lexorder" "HOL-Library.Char_ord"
begin

section \<open>The HNSW graph engine (src/lib/hnsw.ts)\<close>

text \<open>
  Modelling conventions.
  \<^item> A JavaScript \<open>Map<string, Node>\<close> is an association list in insertion order;
    \<open>Map.get\<close> is \<open>map_of\<close> and \<open>Map.set\<close> is \<open>AList.update\<close> (an existing key
    keeps its position, a new key is appended).
  \<^item> The contents of a \<open>Float32Array\<close> are an element of an arbitrary type \<open>'v\<close>; the
    contents of a plain \<open>number[]\<close> are an element of type \<open>'w\<close>.  The conversion
    \<open>new Float32Array(xs)\<close> is a parameter \<open>f32\<close>, the conversion \<open>Array.from(v)\<close> a
    parameter \<open>arr\<close>, and the cosine similarity \<open>dist\<close> a parameter \<open>d\<close> with values in
    the reals (scores are compared and subtracted only).  The search is given a second time
    for a \<open>dist\<close> that may yield NaN.
  \<^item> Counts (\<open>M\<close>, \<open>ef\<close>, \<open>k\<close>, levels) are natural numbers.
  \<^item> Reading a property of \<open>undefined\<close> raises a \<open>TypeError\<close>; every \<open>!\<close> assertion of the
    source followed by a property access is such a branch of the model.
  \<^item> \<open>Math.random()\<close> is a parameter \<open>rnd\<close>: \<open>rnd i\<close> is the outcome of the \<open>i\<close>-th draw of one
    call of \<open>getRandomLevel\<close>.
\<close>

datatype error = DuplicateId | TypeError | AlreadyRunning | EmbedderFailure

text \<open>A JavaScript number that may be infinite (\<open>1 / Math.log(1)\<close> is \<open>Infinity\<close>).\<close>

datatype jsnum = Fin real | PosInf

fun truthy :: "jsnum \<Rightarrow> bool" where
  "truthy (Fin x) = (x \<noteq> 0)"
| "truthy PosInf = True"

fun num_less :: "real \<Rightarrow> jsnum \<Rightarrow> bool" where
  "num_less r (Fin x) = (r < x)"
| "num_less r PosInf = True"

record 'v node =
  node_id :: string
  vector :: 'v
  level :: nat
  neighbors :: "string list list"

record scored =
  cid :: string
  score :: real

record 'v hnsw =
  nodes :: "(string \<times> 'v node) list"
  entryPointId :: "string option"
  M :: nat
  efConstruction :: nat
  efSearch :: nat
  levelMultiplier :: jsnum
  maxLevel :: nat

record HNSWConfig =
  cfg_M :: "nat option"
  cfg_efConstruction :: "nat option"
  cfg_efSearch :: "nat option"
  cfg_levelMultiplier :: "jsnum option"

text \<open>\<open>x || dflt\<close> on an optional count: \<open>undefined\<close> and \<open>0\<close> are falsy.\<close>

definition or_default :: "nat option \<Rightarrow> nat \<Rightarrow> nat" where
  "or_default x dflt = (case x of None \<Rightarrow> dflt | Some n \<Rightarrow> if n = 0 then dflt else n)"

text \<open>\<open>1 / Math.log(M)\<close> for a count \<open>M \<ge> 1\<close>.\<close>

definition inv_log :: "nat \<Rightarrow> jsnum" where
  "inv_log m = (if m = 1 then PosInf else Fin (1 / ln (real m)))"

definition or_default_num :: "jsnum option \<Rightarrow> jsnum \<Rightarrow> jsnum" where
  "or_default_num x dflt = (case x of None \<Rightarrow> dflt | Some n \<Rightarrow> if truthy n then n else dflt)"

text \<open>The constructor.\<close>

definition new_index :: "HNSWConfig \<Rightarrow> 'v hnsw" where
  "new_index config =
     (let m = or_default (cfg_M config) 16 in
      \<lparr> nodes = [], entryPointId = None, M = m,
        efConstruction = or_default (cfg_efConstruction config) 200,
        efSearch = or_default (cfg_efSearch config) 200,
        levelMultiplier = or_default_num (cfg_levelMultiplier config) (inv_log m),
        maxLevel = 0 \<rparr>)"

definition default_config :: HNSWConfig where
  "default_config = \<lparr> cfg_M = None, cfg_efConstruction = None, cfg_efSearch = None,
                       cfg_levelMultiplier = None \<rparr>"

text \<open>\<open>getRandomLevel\<close>: count draws below \<open>levelMultiplier\<close>, at most 16 of them.\<close>

definition getRandomLevel :: "jsnum \<Rightarrow> (nat \<Rightarrow> real) \<Rightarrow> nat" where
  "getRandomLevel lm rnd = length (takeWhile (\<lambda>i. num_less (rnd i) lm) [0..<16])"

subsection \<open>Sorting by descending score\<close>

text \<open>\<open>xs.sort((a, b) => b.score - a.score)\<close>: a stable sort, best score first.\<close>

definition sort_desc :: "scored list \<Rightarrow> scored list" where
  "sort_desc xs = sort_key (\<lambda>e. - score e) xs"

definition selectNeighbors :: "scored list \<Rightarrow> nat \<Rightarrow> scored list" where
  "selectNeighbors candidates m = take m (sort_desc candidates)"

subsection \<open>Greedy hill-climb on one layer\<close>

text \<open>\<open>node.neighbors[l]\<close>, iterated by \<open>for ... of\<close>: \<open>undefined\<close> is not iterable.\<close>

definition layer_of :: "'v node \<Rightarrow> nat \<Rightarrow> error + string list" where
  "layer_of n l = (if l < length (neighbors n) then Inr (neighbors n ! l) else Inl TypeError)"

text \<open>The \<open>for\<close> loop over the neighbours of the current node: keep the best improvement.\<close>

fun scan_best :: "('v \<Rightarrow> 'v \<Rightarrow> real) \<Rightarrow> (string \<times> 'v node) list \<Rightarrow> 'v \<Rightarrow> string list \<Rightarrow>
    'v node option \<times> real \<Rightarrow> error + ('v node option \<times> real)" where
  "scan_best d ns q [] acc = Inr acc"
| "scan_best d ns q (nid # rest) (bestNeighbor, bestDist) =
     (case map_of ns nid of
        None \<Rightarrow> Inl TypeError
      | Some neighbor \<Rightarrow>
          (if d q (vector neighbor) > bestDist
           then scan_best d ns q rest (Some neighbor, d q (vector neighbor))
           else scan_best d ns q rest (bestNeighbor, bestDist)))"

text \<open>Number of stored nodes scoring strictly better than \<open>c\<close>: the variant of the climb.\<close>

definition better_count :: "('v \<Rightarrow> 'v \<Rightarrow> real) \<Rightarrow> (string \<times> 'v node) list \<Rightarrow> 'v \<Rightarrow> real \<Rightarrow> nat" where
  "better_count d ns q c = length (filter (\<lambda>p. d q (vector (snd p)) > c) ns)"

lemma scan_best_result:
  "scan_best d ns q ids (b0, c0) = Inr (Some b, c) \<Longrightarrow>
   (b0 = Some b \<and> c0 = c) \<or> (c0 < c \<and> c = d q (vector b) \<and> (\<exists>k. (k, b) \<in> set ns))"
proof (induction ids arbitrary: b0 c0)
  case Nil
  then show ?case by simp
next
  case (Cons nid rest)
  show ?case
  proof (cases "map_of ns nid")
    case None
    with Cons.prems show ?thesis by simp
  next
    case (Some nb)
    show ?thesis
    proof (cases "d q (vector nb) > c0")
      case True
      with Some Cons.prems have "scan_best d ns q rest (Some nb, d q (vector nb)) = Inr (Some b, c)"
        by simp
      from Cons.IH[OF this] True Some show ?thesis
        by (auto dest: map_of_SomeD)
    next
      case False
      with Some Cons.prems have "scan_best d ns q rest (b0, c0) = Inr (Some b, c)"
        by simp
      from Cons.IH[OF this] show ?thesis .
    qed
  qed
qed

lemma better_count_decreases:
  assumes "c0 < c" and "(k, b) \<in> set ns" and "c = d q (vector b)"
  shows "better_count d ns q c < better_count d ns q c0"
proof -
  let ?P = "\<lambda>p. d q (vector (snd p)) > c"
  let ?Q = "\<lambda>p. d q (vector (snd p)) > c0"
  have imp: "\<And>p. ?P p \<Longrightarrow> ?Q p" using assms(1) by simp
  have "length (filter ?P ns) < length (filter ?Q ns)"
    using assms(2)
  proof (induction ns)
    case Nil
    then show ?case by simp
  next
    case (Cons p ps)
    have le: "length (filter ?P ps) \<le> length (filter ?Q ps)"
      by (induction ps) (use assms(1) in auto)
    show ?case
    proof (cases "p = (k, b)")
      case True
      then show ?thesis using le assms by simp
    next
      case False
      with Cons have "length (filter ?P ps) < length (filter ?Q ps)" by simp
      then show ?thesis using assms(1) by auto
    qed
  qed
  then show ?thesis by (simp add: better_count_def)
qed

text \<open>The \<open>while (changed)\<close> loop.\<close>

function climb :: "('v \<Rightarrow> 'v \<Rightarrow> real) \<Rightarrow> (string \<times> 'v node) list \<Rightarrow> 'v \<Rightarrow> nat \<Rightarrow>
    'v node \<Rightarrow> real \<Rightarrow> error + ('v node \<times> real)" where
  "climb d ns q l currObj currDist =
     (case layer_of currObj l of
        Inl e \<Rightarrow> Inl e
      | Inr nbrs \<Rightarrow>
          (case scan_best d ns q nbrs (None, currDist) of
             Inl e \<Rightarrow> Inl e
           | Inr (None, bestDist) \<Rightarrow> Inr (currObj, currDist)
           | Inr (Some bestNeighbor, bestDist) \<Rightarrow> climb d ns q l bestNeighbor bestDist))"
  by pat_completeness auto
termination
proof (relation "measure (\<lambda>(d, ns, q, l, currObj, currDist). better_count d ns q currDist)")
  show "wf (measure (\<lambda>(d, ns, q, l, currObj, currDist). better_count d ns q currDist))"
    by simp
next
  fix d :: "'v \<Rightarrow> 'v \<Rightarrow> real" and ns q l and currObj :: "'v node"
    and currDist nbrs res x c b
  assume "layer_of currObj l = Inr nbrs"
    and "scan_best d ns q nbrs (None, currDist) = Inr res"
    and "(x, c) = res" and "x = Some b"
  then have "scan_best d ns q nbrs (None, currDist) = Inr (Some b, c)" by simp
  from scan_best_result[OF this]
  have lt: "currDist < c" and eq: "c = d q (vector b)" and ex: "\<exists>k. (k, b) \<in> set ns"
    by simp_all
  from ex obtain k where mem: "(k, b) \<in> set ns" ..
  have "better_count d ns q c < better_count d ns q currDist"
    by (rule better_count_decreases[where d = d and q = q, OF lt mem eq])
  then show "((d, ns, q, l, b, c), d, ns, q, l, currObj, currDist)
      \<in> measure (\<lambda>(d, ns, q, l, currObj, currDist). better_count d ns q currDist)"
    by simp
qed

text \<open>\<open>for (let l = hi; l > lo; l--)\<close>: the layers visited, in order.\<close>

definition layers_down :: "nat \<Rightarrow> nat \<Rightarrow> nat list" where
  "layers_down hi lo = rev [Suc lo ..< Suc hi]"

fun descend :: "('v \<Rightarrow> 'v \<Rightarrow> real) \<Rightarrow> (string \<times> 'v node) list \<Rightarrow> 'v \<Rightarrow> nat list \<Rightarrow>
    'v node \<times> real \<Rightarrow> error + ('v node \<times> real)" where
  "descend d ns q [] st = Inr st"
| "descend d ns q (l # ls) (currObj, currDist) =
     (case climb d ns q l currObj currDist of
        Inl e \<Rightarrow> Inl e
      | Inr st' \<Rightarrow> descend d ns q ls st')"

subsection \<open>searchLayer: best-first search with beam width ef\<close>

text \<open>The loop state: the visited set \<open>v\<close>, the candidates \<open>C\<close> and the results \<open>W\<close>.\<close>

type_synonym beam = "string set \<times> scored list \<times> scored list"

text \<open>\<open>if (W.length > ef) W.pop()\<close>.\<close>

definition trim :: "nat \<Rightarrow> scored list \<Rightarrow> scored list" where
  "trim ef W = (if length W > ef then butlast W else W)"

text \<open>
  The \<open>for\<close> loop over the neighbours of the popped candidate.  \<open>fscore\<close> is the score of
  \<open>f\<close>, read once before the loop.
\<close>

fun expand :: "('v \<Rightarrow> 'v \<Rightarrow> real) \<Rightarrow> (string \<times> 'v node) list \<Rightarrow> 'v \<Rightarrow> nat \<Rightarrow> real \<Rightarrow>
    string list \<Rightarrow> beam \<Rightarrow> error + beam" where
  "expand d ns q ef fscore [] st = Inr st"
| "expand d ns q ef fscore (nid # rest) (v, C, W) =
     (if nid \<in> v then expand d ns q ef fscore rest (v, C, W)
      else
        (case map_of ns nid of
           None \<Rightarrow> Inl TypeError
         | Some neighbor \<Rightarrow>
             (if length W < ef \<or> d q (vector neighbor) > fscore
              then expand d ns q ef fscore rest
                     (insert nid v,
                      C @ [\<lparr>cid = nid, score = d q (vector neighbor)\<rparr>],
                      trim ef (sort_desc (W @ [\<lparr>cid = nid, score = d q (vector neighbor)\<rparr>])))
              else expand d ns q ef fscore rest (insert nid v, C, W))))"

text \<open>The variant of the search loop: unvisited keys plus pending candidates.\<close>

definition pending :: "(string \<times> 'v node) list \<Rightarrow> string set \<Rightarrow> scored list \<Rightarrow> nat" where
  "pending ns v C = card (fst ` set ns - v) + length C"

lemma expand_pending:
  "expand d ns q ef fscore nbrs (v, C, W) = Inr (v', C', W') \<Longrightarrow>
   pending ns v' C' \<le> pending ns v C"
proof (induction nbrs arbitrary: v C W)
  case Nil
  then show ?case by simp
next
  case (Cons nid rest)
  show ?case
  proof (cases "nid \<in> v")
    case True
    with Cons.prems have "expand d ns q ef fscore rest (v, C, W) = Inr (v', C', W')" by simp
    from Cons.IH[OF this] show ?thesis .
  next
    case False
    show ?thesis
    proof (cases "map_of ns nid")
      case None
      with False Cons.prems show ?thesis by simp
    next
      case (Some nb)
      then have "(nid, nb) \<in> set ns" by (rule map_of_SomeD)
      then have "fst (nid, nb) \<in> fst ` set ns" by (rule imageI)
      with False have inK: "nid \<in> fst ` set ns - v" by simp
      have "fst ` set ns - insert nid v \<subset> fst ` set ns - v"
        using inK by blast
      then have "card (fst ` set ns - insert nid v) < card (fst ` set ns - v)"
        by (rule psubset_card_mono[rotated]) simp
      then have cd: "Suc (card (fst ` set ns - insert nid v)) \<le> card (fst ` set ns - v)"
        by simp
      show ?thesis
      proof (cases "length W < ef \<or> d q (vector nb) > fscore")
        case True
        with False Some Cons.prems have
          "expand d ns q ef fscore rest
             (insert nid v, C @ [\<lparr>cid = nid, score = d q (vector nb)\<rparr>],
              trim ef (sort_desc (W @ [\<lparr>cid = nid, score = d q (vector nb)\<rparr>])))
           = Inr (v', C', W')" by simp
        from Cons.IH[OF this] have
          "pending ns v' C' \<le> card (fst ` set ns - insert nid v) + Suc (length C)"
          by (simp add: pending_def)
        with cd show ?thesis by (simp add: pending_def)
      next
        case False2: False
        with False Some Cons.prems have
          "expand d ns q ef fscore rest (insert nid v, C, W) = Inr (v', C', W')" by simp
        from Cons.IH[OF this] have
          "pending ns v' C' \<le> card (fst ` set ns - insert nid v) + length C"
          by (simp add: pending_def)
        with cd show ?thesis by (simp add: pending_def)
      qed
    qed
  qed
qed

text \<open>
  The \<open>while (C.length > 0)\<close> loop.  \<open>W[W.length - 1]\<close> of an empty \<open>W\<close> is \<open>undefined\<close>,
  whose \<open>score\<close> cannot be read.
\<close>

function search_loop :: "('v \<Rightarrow> 'v \<Rightarrow> real) \<Rightarrow> (string \<times> 'v node) list \<Rightarrow> 'v \<Rightarrow> nat \<Rightarrow> nat \<Rightarrow>
    beam \<Rightarrow> error + scored list" where
  "search_loop d ns q ef l (v, C, W) =
     (if C = [] then Inr W
      else if W = [] then Inl TypeError
      else if score (hd (sort_desc C)) < score (last (sort_desc W)) \<and> length W \<ge> ef
      then Inr (sort_desc W)
      else
        (case map_of ns (cid (hd (sort_desc C))) of
           None \<Rightarrow> Inl TypeError
         | Some cNode \<Rightarrow>
             (case layer_of cNode l of
                Inl e \<Rightarrow> Inl e
              | Inr nbrs \<Rightarrow>
                  (case expand d ns q ef (score (last (sort_desc W))) nbrs
                          (v, tl (sort_desc C), sort_desc W) of
                     Inl e \<Rightarrow> Inl e
                   | Inr st' \<Rightarrow> search_loop d ns q ef l st'))))"
  by pat_completeness auto
termination
proof (relation "measure (\<lambda>(d, ns, q, ef, l, v, C, W). pending ns v C)")
  show "wf (measure (\<lambda>(d, ns, q, ef, l, v, C, W). pending ns v C))"
    by simp
next
  fix d :: "'v \<Rightarrow> 'v \<Rightarrow> real" and ns :: "(string \<times> 'v node) list" and q ef l v C W
    and cNode :: "'v node" and nbrs st'
  assume ne: "C \<noteq> []"
    and ex: "expand d ns q ef (score (last (sort_desc W))) nbrs
               (v, tl (sort_desc C), sort_desc W) = Inr st'"
  obtain v' C' W' where st': "st' = (v', C', W')" by (cases st')
  from ex st' have "pending ns v' C' \<le> pending ns v (tl (sort_desc C))"
    by (auto dest: expand_pending)
  moreover have "length (tl (sort_desc C)) < length C"
    using ne by (simp add: sort_desc_def)
  ultimately have "pending ns v' C' < pending ns v C"
    by (simp add: pending_def)
  with st' show "((d, ns, q, ef, l, st'), d, ns, q, ef, l, v, C, W)
      \<in> measure (\<lambda>(d, ns, q, ef, l, v, C, W). pending ns v C)"
    by simp
qed

text \<open>\<open>searchLayer(query, entry, ef, level)\<close>.\<close>

definition searchLayer :: "('v \<Rightarrow> 'v \<Rightarrow> real) \<Rightarrow> (string \<times> 'v node) list \<Rightarrow> 'v \<Rightarrow> 'v node \<Rightarrow>
    nat \<Rightarrow> nat \<Rightarrow> error + scored list" where
  "searchLayer d ns q entry ef l =
     search_loop d ns q ef l
       ({node_id entry},
        [\<lparr>cid = node_id entry, score = d q (vector entry)\<rparr>],
        [\<lparr>cid = node_id entry, score = d q (vector entry)\<rparr>])"

subsection \<open>search\<close>

definition search :: "('w \<Rightarrow> 'v) \<Rightarrow> ('v \<Rightarrow> 'v \<Rightarrow> real) \<Rightarrow> 'v hnsw \<Rightarrow> 'w \<Rightarrow> nat \<Rightarrow>
    error + scored list" where
  "search f32 d g query k =
     (case entryPointId g of
        None \<Rightarrow> Inr []
      | Some ep \<Rightarrow>
          (case map_of (nodes g) ep of
             None \<Rightarrow> Inl TypeError
           | Some currObj \<Rightarrow>
               (case descend d (nodes g) (f32 query) (layers_down (maxLevel g) 0)
                       (currObj, d (f32 query) (vector currObj)) of
                  Inl e \<Rightarrow> Inl e
                | Inr (cur, curDist) \<Rightarrow>
                    (case searchLayer d (nodes g) (f32 query) cur (efSearch g) 0 of
                       Inl e \<Rightarrow> Inl e
                     | Inr W \<Rightarrow> Inr (take k W)))))"

subsection \<open>search over similarities that may be NaN\<close>































subsection \<open>addPoint\<close>

definition new_node :: "string \<Rightarrow> 'v \<Rightarrow> nat \<Rightarrow> 'v node" where
  "new_node i v lvl = \<lparr> node_id = i, vector = v, level = lvl, neighbors = replicate (Suc lvl) [] \<rparr>"

text \<open>\<open>node.neighbors[l] = ids\<close> on a layer the node has.\<close>

definition set_layer :: "nat \<Rightarrow> string list \<Rightarrow> 'v node \<Rightarrow> 'v node" where
  "set_layer l ids n = n\<lparr> neighbors := (neighbors n)[l := ids] \<rparr>"

text \<open>
  \<open>neighbor.neighbors[l].map(nid => ({ id: nid, score: dist(neighbor.vector, nodes.get(nid)!.vector) }))\<close>.
\<close>

fun rescore :: "('v \<Rightarrow> 'v \<Rightarrow> real) \<Rightarrow> (string \<times> 'v node) list \<Rightarrow> 'v \<Rightarrow> string list \<Rightarrow>
    error + scored list" where
  "rescore d ns u [] = Inr []"
| "rescore d ns u (nid # rest) =
     (case map_of ns nid of
        None \<Rightarrow> Inl TypeError
      | Some n \<Rightarrow>
          (case rescore d ns u rest of
             Inl e \<Rightarrow> Inl e
           | Inr cs \<Rightarrow> Inr (\<lparr>cid = nid, score = d u (vector n)\<rparr> # cs)))"

text \<open>
  One round of the inner loop of step 4c: push the new id onto the neighbour's list on
  layer \<open>l\<close> and prune the list when it exceeds \<open>M\<close>.  A failure carries the state reached.
\<close>

definition link_back :: "('v \<Rightarrow> 'v \<Rightarrow> real) \<Rightarrow> nat \<Rightarrow> string \<Rightarrow> nat \<Rightarrow> scored \<Rightarrow>
    (string \<times> 'v node) list \<times> string set \<Rightarrow>
    (error \<times> (string \<times> 'v node) list \<times> string set) + ((string \<times> 'v node) list \<times> string set)" where
  "link_back d m newid l neighborInfo st =
     (case st of (ns, touched) \<Rightarrow>
       (case map_of ns (cid neighborInfo) of
          None \<Rightarrow> Inl (TypeError, ns, touched)
        | Some neighbor \<Rightarrow>
            if \<not> l < length (neighbors neighbor) then Inl (TypeError, ns, touched)
            else
              let pushed = neighbors neighbor ! l @ [newid];
                  ns1 = AList.map_entry (cid neighborInfo) (set_layer l pushed) ns;
                  touched1 = insert (node_id neighbor) touched
              in if length pushed > m
                 then (case rescore d ns1 (vector neighbor) pushed of
                         Inl e \<Rightarrow> Inl (e, ns1, touched1)
                       | Inr neighborCandidates \<Rightarrow>
                           Inr (AList.map_entry (cid neighborInfo)
                                  (set_layer l (map cid (selectNeighbors neighborCandidates m))) ns1,
                                touched1))
                 else Inr (ns1, touched1)))"

fun link_all :: "('v \<Rightarrow> 'v \<Rightarrow> real) \<Rightarrow> nat \<Rightarrow> string \<Rightarrow> nat \<Rightarrow> scored list \<Rightarrow>
    (string \<times> 'v node) list \<times> string set \<Rightarrow>
    (error \<times> (string \<times> 'v node) list \<times> string set) + ((string \<times> 'v node) list \<times> string set)" where
  "link_all d m newid l [] st = Inr st"
| "link_all d m newid l (neighborInfo # rest) st =
     (case link_back d m newid l neighborInfo st of
        Inl x \<Rightarrow> Inl x
      | Inr st' \<Rightarrow> link_all d m newid l rest st')"

text \<open>
  One round of the loop of step 4 on layer \<open>l\<close>.  The state is the node map, the touched
  set and \<open>currObj\<close> (\<open>None\<close> when \<open>nodes.get(W[0].id)\<close> was \<open>undefined\<close>).
\<close>

definition connect_layer :: "('v \<Rightarrow> 'v \<Rightarrow> real) \<Rightarrow> nat \<Rightarrow> nat \<Rightarrow> string \<Rightarrow> 'v \<Rightarrow> nat \<Rightarrow>
    (string \<times> 'v node) list \<times> string set \<times> 'v node option \<Rightarrow>
    (error \<times> (string \<times> 'v node) list \<times> string set) +
    ((string \<times> 'v node) list \<times> string set \<times> 'v node option)" where
  "connect_layer d m efc newid q l st =
     (case st of (ns, touched, cur) \<Rightarrow>
       (case cur of
          None \<Rightarrow> Inl (TypeError, ns, touched)
        | Some currObj \<Rightarrow>
            (case searchLayer d ns q currObj efc l of
               Inl e \<Rightarrow> Inl (e, ns, touched)
             | Inr W \<Rightarrow>
                 (case link_all d m newid l (selectNeighbors W m)
                         (AList.map_entry newid (set_layer l (map cid (selectNeighbors W m))) ns,
                          touched) of
                    Inl x \<Rightarrow> Inl x
                  | Inr (ns', touched') \<Rightarrow>
                      Inr (ns', touched',
                           if sort_desc W \<noteq> [] then map_of ns' (cid (hd (sort_desc W)))
                           else Some currObj)))))"

fun connect :: "('v \<Rightarrow> 'v \<Rightarrow> real) \<Rightarrow> nat \<Rightarrow> nat \<Rightarrow> string \<Rightarrow> 'v \<Rightarrow> nat list \<Rightarrow>
    (string \<times> 'v node) list \<times> string set \<times> 'v node option \<Rightarrow>
    (error \<times> (string \<times> 'v node) list \<times> string set) +
    ((string \<times> 'v node) list \<times> string set \<times> 'v node option)" where
  "connect d m efc newid q [] st = Inr st"
| "connect d m efc newid q (l # ls) st =
     (case connect_layer d m efc newid q l st of
        Inl x \<Rightarrow> Inl x
      | Inr st' \<Rightarrow> connect d m efc newid q ls st')"

text \<open>\<open>for (let l = hi; l >= 0; l--)\<close>.\<close>

definition layers_to_zero :: "nat \<Rightarrow> nat list" where
  "layers_to_zero hi = rev [0 ..< Suc hi]"

text \<open>
  \<open>addPoint(id, vector)\<close>.  The result is \<open>Inr\<close> of the new state and the touched set, or
  \<open>Inl\<close> of the error thrown and the state the index is left in.
\<close>

definition addPoint :: "('w \<Rightarrow> 'v) \<Rightarrow> ('v \<Rightarrow> 'v \<Rightarrow> real) \<Rightarrow> (nat \<Rightarrow> real) \<Rightarrow> 'v hnsw \<Rightarrow> string \<Rightarrow> 'w \<Rightarrow>
    (error \<times> 'v hnsw) + ('v hnsw \<times> string set)" where
  "addPoint f32 d rnd g newid vec =
     (if map_of (nodes g) newid \<noteq> None then Inl (DuplicateId, g)
      else
        let lvl = getRandomLevel (levelMultiplier g) rnd;
            ns0 = AList.update newid (new_node newid (f32 vec) lvl) (nodes g)
        in (case entryPointId g of
              None \<Rightarrow> Inr (g\<lparr> nodes := ns0, entryPointId := Some newid, maxLevel := lvl \<rparr>, {newid})
            | Some ep \<Rightarrow>
                (case map_of ns0 ep of
                   None \<Rightarrow> Inl (TypeError, g\<lparr> nodes := ns0 \<rparr>)
                 | Some currObj \<Rightarrow>
                     (case descend d ns0 (f32 vec) (layers_down (maxLevel g) lvl)
                             (currObj, d (f32 vec) (vector currObj)) of
                        Inl e \<Rightarrow> Inl (e, g\<lparr> nodes := ns0 \<rparr>)
                      | Inr (cur, curDist) \<Rightarrow>
                          (case connect d (M g) (efConstruction g) newid (f32 vec)
                                  (layers_to_zero (min lvl (maxLevel g)))
                                  (ns0, {newid}, Some cur) of
                             Inl (e, ns', touched) \<Rightarrow> Inl (e, g\<lparr> nodes := ns' \<rparr>)
                           | Inr (ns', touched, cur') \<Rightarrow>
                               Inr (if lvl > maxLevel g
                                    then g\<lparr> nodes := ns', maxLevel := lvl, entryPointId := Some newid \<rparr>
                                    else g\<lparr> nodes := ns' \<rparr>,
                                    touched))))))"

subsection \<open>toJSON and fromJSON\<close>

record 'w json_node =
  j_id :: string
  j_vector :: 'w
  j_level :: nat
  j_neighbors :: "string list list"

record 'w json_index =
  j_M :: nat
  j_efConstruction :: nat
  j_efSearch :: nat
  j_levelMultiplier :: jsnum
  j_maxLevel :: nat
  j_entryPointId :: "string option"
  j_nodes :: "'w json_node list"

definition toJSON :: "('v \<Rightarrow> 'w) \<Rightarrow> 'v hnsw \<Rightarrow> 'w json_index" where
  "toJSON arr g =
     \<lparr> j_M = M g, j_efConstruction = efConstruction g, j_efSearch = efSearch g,
       j_levelMultiplier = levelMultiplier g, j_maxLevel = maxLevel g,
       j_entryPointId = entryPointId g,
       j_nodes = map (\<lambda>(i, n). \<lparr> j_id = i, j_vector = arr (vector n), j_level = level n,
                                  j_neighbors = neighbors n \<rparr>) (nodes g) \<rparr>"

definition node_of_json :: "('w \<Rightarrow> 'v) \<Rightarrow> 'w json_node \<Rightarrow> 'v node" where
  "node_of_json f32 nodeData =
     \<lparr> node_id = j_id nodeData, vector = f32 (j_vector nodeData), level = j_level nodeData,
       neighbors = j_neighbors nodeData \<rparr>"

definition fromJSON :: "('w \<Rightarrow> 'v) \<Rightarrow> 'w json_index \<Rightarrow> 'v hnsw" where
  "fromJSON f32 json =
     (new_index \<lparr> cfg_M = Some (j_M json), cfg_efConstruction = Some (j_efConstruction json),
                  cfg_efSearch = Some (j_efSearch json),
                  cfg_levelMultiplier = Some (j_levelMultiplier json) \<rparr>)
       \<lparr> maxLevel := j_maxLevel json,
         entryPointId := j_entryPointId json,
         nodes := fold (\<lambda>nodeData m. AList.update (j_id nodeData) (node_of_json f32 nodeData) m)
                    (j_nodes json) [] \<rparr>"

section \<open>The indexer (src/index.ts) over its stores (lib/db.ts)\<close>

text \<open>
  An object store keyed by id is an association list; \<open>put\<close> is \<open>AList.update\<close> and
  \<open>getAll\<close> lists the values by ascending key.  Store transactions do not fail in the model.
\<close>

record ('w, 'm) VectorDocument =
  doc_id :: string
  doc_text :: string
  doc_metadata :: "'m option"
  doc_embedding :: "'w option"
  doc_createdAt :: nat

record ('v, 'w, 'm) Vectoria =
  vt_index :: "'v hnsw"
  initialized :: bool
  documents :: "(string \<times> ('w, 'm) VectorDocument) list"
  meta :: "'w json_index option"
  hnsw_nodes :: "(string \<times> 'w json_node) list"

definition getAll :: "(string \<times> 'a) list \<Rightarrow> 'a list" where
  "getAll store = map snd (sort_key fst store)"

text \<open>\<open>init\<close>: the meta record is the index without its nodes, which come from the node store.\<close>

definition init :: "('w \<Rightarrow> 'v) \<Rightarrow> ('v, 'w, 'm) Vectoria \<Rightarrow> ('v, 'w, 'm) Vectoria" where
  "init f32 vt =
     (if initialized vt then vt
      else (case meta vt of
              Some m \<Rightarrow> vt\<lparr> vt_index := fromJSON f32 (m\<lparr> j_nodes := getAll (hnsw_nodes vt) \<rparr>),
                            initialized := True \<rparr>
            | None \<Rightarrow> vt\<lparr> initialized := True \<rparr>))"

text \<open>
  \<open>saveIndex(touchedIds)\<close>: rewrite the meta record and put the touched nodes that exist.
  (The puts are listed in the order of the node map; the store is keyed, so their order is
  immaterial.)
\<close>

definition saveIndex :: "('v \<Rightarrow> 'w) \<Rightarrow> string set \<Rightarrow> ('v, 'w, 'm) Vectoria \<Rightarrow> ('v, 'w, 'm) Vectoria" where
  "saveIndex arr touchedIds vt =
     vt\<lparr> meta := Some ((toJSON arr (vt_index vt))\<lparr> j_nodes := [] \<rparr>),
         hnsw_nodes :=
           fold (\<lambda>(k, n) st. AList.update (node_id n)
                   \<lparr> j_id = node_id n, j_vector = arr (vector n), j_level = level n,
                     j_neighbors = neighbors n \<rparr> st)
             (filter (\<lambda>(k, n). k \<in> touchedIds) (nodes (vt_index vt))) (hnsw_nodes vt) \<rparr>"

text \<open>
  The loop of \<open>indexDocuments\<close> over the documents: \<open>addPoint\<close> for each one that has an
  embedding; \<open>rnds j\<close> are the draws of the call for the \<open>j\<close>-th document.
\<close>

fun add_all :: "('w \<Rightarrow> 'v) \<Rightarrow> ('v \<Rightarrow> 'v \<Rightarrow> real) \<Rightarrow> (nat \<Rightarrow> nat \<Rightarrow> real) \<Rightarrow> nat \<Rightarrow>
    ('w, 'm) VectorDocument list \<Rightarrow> 'v hnsw \<times> string set \<Rightarrow>
    (error \<times> 'v hnsw) + ('v hnsw \<times> string set)" where
  "add_all f32 d rnds j [] st = Inr st"
| "add_all f32 d rnds j (doc # rest) (g, allTouchedIds) =
     (case doc_embedding doc of
        None \<Rightarrow> add_all f32 d rnds (Suc j) rest (g, allTouchedIds)
      | Some e \<Rightarrow>
          (case addPoint f32 d (rnds j) g (doc_id doc) e of
             Inl x \<Rightarrow> Inl x
           | Inr (g', touched) \<Rightarrow> add_all f32 d rnds (Suc j) rest (g', allTouchedIds \<union> touched)))"

definition addMany :: "('w, 'm) VectorDocument list \<Rightarrow> (string \<times> ('w, 'm) VectorDocument) list \<Rightarrow>
    (string \<times> ('w, 'm) VectorDocument) list" where
  "addMany docs store = fold (\<lambda>doc st. AList.update (doc_id doc) doc st) docs store"

text \<open>\<open>indexDocuments(docs)\<close>: the error thrown, if any, and the indexer afterwards.\<close>

definition indexDocuments :: "('w \<Rightarrow> 'v) \<Rightarrow> ('v \<Rightarrow> 'w) \<Rightarrow> ('v \<Rightarrow> 'v \<Rightarrow> real) \<Rightarrow> (nat \<Rightarrow> nat \<Rightarrow> real) \<Rightarrow>
    ('v, 'w, 'm) Vectoria \<Rightarrow> ('w, 'm) VectorDocument list \<Rightarrow> error option \<times> ('v, 'w, 'm) Vectoria" where
  "indexDocuments f32 arr d rnds vt docs =
     (case add_all f32 d rnds 0 docs (vt_index (init f32 vt), {}) of
        Inl (e, g') \<Rightarrow> (Some e, (init f32 vt)\<lparr> vt_index := g' \<rparr>)
      | Inr (g', allTouchedIds) \<Rightarrow>
          (None, saveIndex arr allTouchedIds
                   ((init f32 vt)\<lparr> vt_index := g', documents := addMany docs (documents (init f32 vt)) \<rparr>)))"

definition resetIndex :: "('v, 'w, 'm) Vectoria \<Rightarrow> ('v, 'w, 'm) Vectoria" where
  "resetIndex vt = vt\<lparr> vt_index := new_index default_config, meta := None, hnsw_nodes := [] \<rparr>"

definition getAllDocuments :: "('v, 'w, 'm) Vectoria \<Rightarrow> ('w, 'm) VectorDocument list" where
  "getAllDocuments vt = getAll (documents vt)"

section \<open>The migration manager (src/lib/migration.ts)\<close>

text \<open>
  \<open>start\<close> is asynchronous: between its \<open>await\<close>s other code may run, and the only such
  code that matters to it is \<open>stop\<close>, which sets \<open>shouldStop\<close>.  A schedule \<open>stops\<close> says
  when \<open>stop\<close> is called: \<open>stops 0\<close> during the awaits before the loop, \<open>stops (Suc i)\<close>
  during the awaits of round \<open>i\<close> of the loop.  (\<open>shouldStop\<close> is read at the head of each
  round and after the loop only.)  The last component of the state is the list of batches
  whose \<open>indexDocuments\<close> call has returned.
\<close>

record MigrationStatus =
  st_total :: nat
  st_processed :: nat
  st_lastProcessedId :: "string option"
  st_isComplete :: bool
  st_error :: "error option"

record MigrationManager =
  status :: MigrationStatus
  isRunning :: bool
  shouldStop :: bool

definition new_manager :: MigrationManager where
  "new_manager = \<lparr> status = \<lparr> st_total = 0, st_processed = 0, st_lastProcessedId = None,
                                st_isComplete = False, st_error = None \<rparr>,
                     isRunning = False, shouldStop = False \<rparr>"

definition stop :: "MigrationManager \<Rightarrow> MigrationManager" where
  "stop mgr = mgr\<lparr> shouldStop := True \<rparr>"

definition signal :: "bool \<Rightarrow> MigrationManager \<Rightarrow> MigrationManager" where
  "signal called mgr = (if called then stop mgr else mgr)"

text \<open>\<open>xs[i]\<close>, \<open>undefined\<close> beyond the end.\<close>

definition nth_opt :: "'a list \<Rightarrow> nat \<Rightarrow> 'a option" where
  "nth_opt xs i = (if i < length xs then Some (xs ! i) else None)"

text \<open>\<open>batch.map((doc, idx) => ({ ...doc, embedding: newEmbeddings[idx] }))\<close>.\<close>

definition updateDocs :: "('w, 'm) VectorDocument list \<Rightarrow> 'w list \<Rightarrow> ('w, 'm) VectorDocument list" where
  "updateDocs batch newEmbeddings =
     map (\<lambda>(doc, idx). doc\<lparr> doc_embedding := nth_opt newEmbeddings idx \<rparr>)
       (zip batch [0 ..< length batch])"

type_synonym ('v, 'w, 'm) world =
  "MigrationManager \<times> ('v, 'w, 'm) Vectoria \<times> ('w, 'm) VectorDocument list list"

text \<open>The \<open>for\<close> loop of \<open>start\<close>, from index \<open>i\<close>, in round \<open>iter\<close>.\<close>

function run_batches :: "('w \<Rightarrow> 'v) \<Rightarrow> ('v \<Rightarrow> 'w) \<Rightarrow> ('v \<Rightarrow> 'v \<Rightarrow> real) \<Rightarrow>
    (string list \<Rightarrow> error + 'w list) \<Rightarrow> (nat \<Rightarrow> nat \<Rightarrow> nat \<Rightarrow> real) \<Rightarrow> (nat \<Rightarrow> bool) \<Rightarrow> nat \<Rightarrow>
    ('w, 'm) VectorDocument list \<Rightarrow> nat \<Rightarrow> nat \<Rightarrow> nat \<Rightarrow> ('v, 'w, 'm) world \<Rightarrow>
    error option \<times> ('v, 'w, 'm) world" where
  "run_batches f32 arr d embedBatch rnds stops batchSize allDocs i processedCount iter (mgr, vt, done) =
     (if \<not> i < length allDocs then (None, mgr, vt, done)
      else if shouldStop mgr then (None, mgr, vt, done)
      else
        (case embedBatch (map doc_text (take batchSize (drop i allDocs))) of
           Inl e \<Rightarrow> (Some e, signal (stops (Suc iter)) mgr, vt, done)
         | Inr newEmbeddings \<Rightarrow>
             (case indexDocuments f32 arr d (rnds iter) vt
                     (updateDocs (take batchSize (drop i allDocs)) newEmbeddings) of
                (Some e, vt') \<Rightarrow> (Some e, signal (stops (Suc iter)) mgr, vt', done)
              | (None, vt') \<Rightarrow>
                  if take batchSize (drop i allDocs) = []
                  then (Some TypeError,
                        signal (stops (Suc iter))
                          (mgr\<lparr> status := (status mgr)\<lparr> st_processed := processedCount \<rparr> \<rparr>),
                        vt',
                        done @ [updateDocs (take batchSize (drop i allDocs)) newEmbeddings])
                  else run_batches f32 arr d embedBatch rnds stops batchSize allDocs
                         (i + batchSize)
                         (processedCount + length (take batchSize (drop i allDocs)))
                         (Suc iter)
                         (signal (stops (Suc iter))
                            (mgr\<lparr> status := (status mgr)
                                   \<lparr> st_processed :=
                                       processedCount + length (take batchSize (drop i allDocs)),
                                     st_lastProcessedId :=
                                       Some (doc_id (last (take batchSize (drop i allDocs)))) \<rparr> \<rparr>),
                          vt',
                          done @ [updateDocs (take batchSize (drop i allDocs)) newEmbeddings]))))"
  by pat_completeness auto
termination
proof (relation "measure (\<lambda>(f32, arr, d, embedBatch, rnds, stops, batchSize, allDocs, i, rest).
                    length allDocs - i)")
  show "wf (measure (\<lambda>(f32, arr, d, embedBatch, rnds, stops, batchSize, allDocs, i, rest).
                    length allDocs - i))"
    by simp
next
  fix f32 :: "'w \<Rightarrow> 'v" and arr :: "'v \<Rightarrow> 'w" and d :: "'v \<Rightarrow> 'v \<Rightarrow> real"
    and embedBatch :: "string list \<Rightarrow> error + 'w list" and rnds :: "nat \<Rightarrow> nat \<Rightarrow> nat \<Rightarrow> real"
    and stops :: "nat \<Rightarrow> bool" and batchSize :: nat and allDocs :: "('w, 'm) VectorDocument list"
    and i processedCount iter :: nat and mgr :: MigrationManager and vt :: "('v, 'w, 'm) Vectoria"
    and "done" :: "('w, 'm) VectorDocument list list" and st :: "('v, 'w, 'm) world"
  assume lt: "\<not> \<not> i < length allDocs" and ne: "take batchSize (drop i allDocs) \<noteq> []"
  from ne have "batchSize > 0" by (cases batchSize) simp_all
  with lt show "((f32, arr, d, embedBatch, rnds, stops, batchSize, allDocs, i + batchSize,
                  processedCount + length (take batchSize (drop i allDocs)), Suc iter, st),
                 f32, arr, d, embedBatch, rnds, stops, batchSize, allDocs, i, processedCount, iter,
                 mgr, vt, done)
      \<in> measure (\<lambda>(f32, arr, d, embedBatch, rnds, stops, batchSize, allDocs, i, rest).
                    length allDocs - i)"
    by simp
qed

text \<open>
  \<open>start(batchSize)\<close>.  The guard throws before the \<open>try\<close>; inside it, an error is recorded
  in the status and rethrown, and \<open>finally\<close> clears \<open>isRunning\<close>.
\<close>

definition start :: "('w \<Rightarrow> 'v) \<Rightarrow> ('v \<Rightarrow> 'w) \<Rightarrow> ('v \<Rightarrow> 'v \<Rightarrow> real) \<Rightarrow>
    (string list \<Rightarrow> error + 'w list) \<Rightarrow> (nat \<Rightarrow> nat \<Rightarrow> nat \<Rightarrow> real) \<Rightarrow> (nat \<Rightarrow> bool) \<Rightarrow> nat \<Rightarrow>
    MigrationManager \<times> ('v, 'w, 'm) Vectoria \<Rightarrow> error option \<times> ('v, 'w, 'm) world" where
  "start f32 arr d embedBatch rnds stops batchSize w =
     (case w of (mgr, vt) \<Rightarrow>
        if isRunning mgr then (Some AlreadyRunning, mgr, vt, [])
        else
          (case run_batches f32 arr d embedBatch rnds stops batchSize (getAllDocuments vt) 0 0 0
                  (signal (stops 0)
                     (mgr\<lparr> isRunning := True, shouldStop := False,
                           status := (status mgr)\<lparr> st_total := length (getAllDocuments vt) \<rparr> \<rparr>),
                   resetIndex vt, []) of
             (Some e, mgr', vt', done) \<Rightarrow>
               (Some e, mgr'\<lparr> status := (status mgr')\<lparr> st_error := Some e \<rparr>, isRunning := False \<rparr>,
                vt', done)
           | (None, mgr', vt', done) \<Rightarrow>
               (None,
                (if \<not> shouldStop mgr'
                 then mgr'\<lparr> status := (status mgr')\<lparr> st_isComplete := True \<rparr> \<rparr>
                 else mgr')\<lparr> isRunning := False \<rparr>,
                vt', done)))"

section \<open>Reachable states, concrete inputs and auxiliary notions\<close>

subsection \<open>States reachable through the public interface\<close>

text \<open>The states an index built by the constructor reaches by successful \<open>addPoint\<close> calls.\<close>

inductive reachable :: "('w \<Rightarrow> 'v) \<Rightarrow> ('v \<Rightarrow> 'v \<Rightarrow> real) \<Rightarrow> 'v hnsw \<Rightarrow> bool"
  for f32 :: "'w \<Rightarrow> 'v" and d :: "'v \<Rightarrow> 'v \<Rightarrow> real" where
  reachable_new: "reachable f32 d (new_index config)"
| reachable_add: "reachable f32 d g \<Longrightarrow> addPoint f32 d rnd g newid vec = Inr (g', touched) \<Longrightarrow>
     reachable f32 d g'"

text \<open>\<open>adds f32 d g g'\<close>: zero or more successful \<open>addPoint\<close> calls lead from \<open>g\<close> to \<open>g'\<close>.\<close>

inductive adds :: "('w \<Rightarrow> 'v) \<Rightarrow> ('v \<Rightarrow> 'v \<Rightarrow> real) \<Rightarrow> 'v hnsw \<Rightarrow> 'v hnsw \<Rightarrow> bool"
  for f32 :: "'w \<Rightarrow> 'v" and d :: "'v \<Rightarrow> 'v \<Rightarrow> real" where
  adds_none: "adds f32 d g g"
| adds_more: "adds f32 d g g1 \<Longrightarrow> addPoint f32 d rnd g1 newid vec = Inr (g2, touched) \<Longrightarrow>
     adds f32 d g g2"

subsection \<open>Concrete inputs\<close>

text \<open>
  \<open>dist\<close> on exact reals, for vectors \<open>a\<close> and \<open>b\<close> with \<open>b\<close> at least as long as \<open>a\<close>:
  \<open>dot / (sqrt(normA) * sqrt(normB) + 1e-6)\<close>, the loop running over the indices of \<open>a\<close>.
\<close>

definition cosine :: "real list \<Rightarrow> real list \<Rightarrow> real" where
  "cosine a b =
     sum_list (map2 (*) a b) /
       (sqrt (sum_list (map (\<lambda>x. x * x) a)) * sqrt (sum_list (map (\<lambda>x. x * x) (take (length a) b)))
        + 1 / 1000000)"

text \<open>Vectors whose entries are single-precision values already: the conversion keeps them.\<close>

definition keep :: "real list \<Rightarrow> real list" where
  "keep xs = xs"

text \<open>Every draw is 0.9.\<close>

definition draws :: "nat \<Rightarrow> real" where
  "draws i = 9 / 10"

text \<open>\<open>new HNSWIndex({ M: 1, levelMultiplier: 0.5 })\<close>.\<close>

definition config1 :: HNSWConfig where
  "config1 = \<lparr> cfg_M = Some 1, cfg_efConstruction = None, cfg_efSearch = None,
                cfg_levelMultiplier = Some (Fin (1 / 2)) \<rparr>"

definition index0 :: "real list hnsw" where
  "index0 = new_index config1"

text \<open>The index after \<open>addPoint("a", [1, 0])\<close> on \<open>index0\<close>.\<close>

definition index1 :: "real list hnsw" where
  "index1 = \<lparr> nodes = [(''a'', new_node ''a'' [1, 0] 0)], entryPointId = Some ''a'', M = 1,
               efConstruction = 200, efSearch = 200, levelMultiplier = Fin (1 / 2),
               maxLevel = 0 \<rparr>"

subsection \<open>Auxiliary notions\<close>

text \<open>What \<open>addPoint\<close> never changes of a stored node: everything but the neighbour ids.\<close>

definition shape :: "(string \<times> 'v node) list \<Rightarrow> (string \<times> string \<times> 'v \<times> nat \<times> nat) list" where
  "shape ns = map (\<lambda>(k, n). (k, node_id n, vector n, level n, length (neighbors n))) ns"

text \<open>The index after \<open>addPoint("b", [1, 0])\<close> on \<open>index1\<close>.\<close>

definition index2 :: "real list hnsw" where
  "index2 = \<lparr> nodes = [(''a'', \<lparr> node_id = ''a'', vector = [1, 0], level = 0, neighbors = [[''b'']] \<rparr>),
                        (''b'', \<lparr> node_id = ''b'', vector = [1, 0], level = 0, neighbors = [[''a'']] \<rparr>)],
               entryPointId = Some ''a'', M = 1, efConstruction = 200, efSearch = 200,
               levelMultiplier = Fin (1 / 2), maxLevel = 0 \<rparr>"

text \<open>The index after \<open>addPoint("c", [0, 1])\<close> on \<open>index2\<close>.\<close>

definition index3 :: "real list hnsw" where
  "index3 = \<lparr> nodes = [(''a'', \<lparr> node_id = ''a'', vector = [1, 0], level = 0, neighbors = [[''b'']] \<rparr>),
                        (''b'', \<lparr> node_id = ''b'', vector = [1, 0], level = 0, neighbors = [[''a'']] \<rparr>),
                        (''c'', \<lparr> node_id = ''c'', vector = [0, 1], level = 0, neighbors = [[''a'']] \<rparr>)],
               entryPointId = Some ''a'', M = 1, efConstruction = 200, efSearch = 200,
               levelMultiplier = Fin (1 / 2), maxLevel = 0 \<rparr>"

text \<open>
  What holds of every \<open>HNSWIndex\<close> object: the constructor replaces falsy parameters by
  defaults, and the keys of a \<open>Map\<close> are distinct.
\<close>

definition is_instance :: "'v hnsw \<Rightarrow> bool" where
  "is_instance g \<longleftrightarrow>
     M g \<noteq> 0 \<and> efConstruction g \<noteq> 0 \<and> efSearch g \<noteq> 0 \<and> truthy (levelMultiplier g) \<and>
     distinct (map fst (nodes g))"



text \<open>
  The invariant of the migration loop at the head of round \<open>iter\<close>, and what holds of the
  state \<open>(res, mgr', done')\<close> the loop ends in, relative to the manager \<open>mgr\<close> it was entered
  with.
\<close>

definition loop_inv :: "(nat \<Rightarrow> bool) \<Rightarrow> ('w, 'm) VectorDocument list \<Rightarrow> nat \<Rightarrow> nat \<Rightarrow> nat \<Rightarrow>
    MigrationManager \<Rightarrow> ('w, 'm) VectorDocument list list \<Rightarrow> bool" where
  "loop_inv stops allDocs i pc iter mgr batches \<longleftrightarrow>
     length batches = iter \<and> pc = length (concat batches) \<and> pc = min i (length allDocs) \<and>
     map doc_id (concat batches) = take pc (map doc_id allDocs) \<and>
     (\<forall>j < iter. \<not> stops j) \<and> (shouldStop mgr \<longleftrightarrow> stops iter) \<and>
     (batches \<noteq> [] \<longrightarrow> st_processed (status mgr) = pc)"

definition loop_post :: "(nat \<Rightarrow> bool) \<Rightarrow> ('w, 'm) VectorDocument list \<Rightarrow> MigrationManager \<Rightarrow>
    error option \<Rightarrow> MigrationManager \<Rightarrow> ('w, 'm) VectorDocument list list \<Rightarrow> bool" where
  "loop_post stops allDocs mgr res mgr' batches \<longleftrightarrow>
     (\<forall>j. stops j \<longrightarrow> length batches \<le> j) \<and>
     (res = None \<longrightarrow> (shouldStop mgr' \<longleftrightarrow> stops (length batches))) \<and>
     st_isComplete (status mgr') = st_isComplete (status mgr) \<and>
     isRunning mgr' = isRunning mgr \<and>
     st_total (status mgr') = st_total (status mgr) \<and>
     st_processed (status mgr') =
       (if batches = [] then st_processed (status mgr) else length (concat batches)) \<and>
     map doc_id (concat batches) = take (length (concat batches)) (map doc_id allDocs) \<and>
     (res = None \<and> \<not> shouldStop mgr' \<longrightarrow> length (concat batches) = length allDocs)"

text \<open>A document store as the keyed store keeps it: one record per key, the key being its id.\<close>

definition docs_keyed :: "(string \<times> ('w, 'm) VectorDocument) list \<Rightarrow> bool" where
  "docs_keyed store \<longleftrightarrow> distinct (map fst store) \<and> (\<forall>(k, doc) \<in> set store. doc_id doc = k)"

text \<open>
  A store of two documents, an indexer over it that has not been initialised, an embedder
  that maps every text to \<open>[1, 0]\<close>, and the schedule that calls \<open>stop\<close> during round 0.
\<close>

definition docA :: "(real list, unit) VectorDocument" where
  "docA = \<lparr> doc_id = ''a'', doc_text = ''x'', doc_metadata = None, doc_embedding = Some [0, 1],
             doc_createdAt = 1 \<rparr>"

definition docB :: "(real list, unit) VectorDocument" where
  "docB = \<lparr> doc_id = ''b'', doc_text = ''y'', doc_metadata = None, doc_embedding = Some [0, 1],
             doc_createdAt = 2 \<rparr>"

definition indexer0 :: "(real list, real list, unit) Vectoria" where
  "indexer0 = \<lparr> vt_index = new_index default_config, initialized = False,
                 documents = [(''a'', docA), (''b'', docB)], meta = None, hnsw_nodes = [] \<rparr>"

definition embedder0 :: "string list \<Rightarrow> error + real list list" where
  "embedder0 texts = Inr (map (\<lambda>t. [1, 0]) texts)"

definition draws3 :: "nat \<Rightarrow> nat \<Rightarrow> nat \<Rightarrow> real" where
  "draws3 iter j i = 9 / 10"

definition stop_in_round0 :: "nat \<Rightarrow> bool" where
  "stop_in_round0 j \<longleftrightarrow> j = 1"

definition never :: "nat \<Rightarrow> bool" where
  "never j \<longleftrightarrow> False"

text \<open>\<open>stop\<close> is called once, during the awaits that precede the loop.\<close>

definition stop_before_loop :: "nat \<Rightarrow> bool" where
  "stop_before_loop j \<longleftrightarrow> j = 0"

text \<open>The manager and the indexer after the run of \<open>start(1)\<close> that is stopped in round 0.\<close>

definition manager1 :: MigrationManager where
  "manager1 = \<lparr> status = \<lparr> st_total = 2, st_processed = 1, st_lastProcessedId = Some ''a'',
                              st_isComplete = False, st_error = None \<rparr>,
                  isRunning = False, shouldStop = True \<rparr>"

definition indexer1 :: "(real list, real list, unit) Vectoria" where
  "indexer1 =
     \<lparr> vt_index = \<lparr> nodes = [(''a'', new_node ''a'' [1, 0] 0)], entryPointId = Some ''a'', M = 16,
                    efConstruction = 200, efSearch = 200, levelMultiplier = inv_log 16,
                    maxLevel = 0 \<rparr>,
       initialized = True,
       documents = [(''a'', docA\<lparr> doc_embedding := Some [1, 0] \<rparr>), (''b'', docB)],
       meta = Some \<lparr> j_M = 16, j_efConstruction = 200, j_efSearch = 200,
                     j_levelMultiplier = inv_log 16, j_maxLevel = 0, j_entryPointId = Some ''a'',
                     j_nodes = [] \<rparr>,
       hnsw_nodes = [(''a'', \<lparr> j_id = ''a'', j_vector = [1, 0], j_level = 0, j_neighbors = [[]] \<rparr>)] \<rparr>"

text \<open>The manager and the indexer after a further run of \<open>start(1)\<close> that is never stopped.\<close>

definition manager2 :: MigrationManager where
  "manager2 = \<lparr> status = \<lparr> st_total = 2, st_processed = 2, st_lastProcessedId = Some ''b'',
                              st_isComplete = True, st_error = None \<rparr>,
                  isRunning = False, shouldStop = False \<rparr>"

definition indexer2 :: "(real list, real list, unit) Vectoria" where
  "indexer2 =
     \<lparr> vt_index = \<lparr> nodes = [(''a'', \<lparr> node_id = ''a'', vector = [1, 0], level = 0, neighbors = [[''b'']] \<rparr>),
                             (''b'', \<lparr> node_id = ''b'', vector = [1, 0], level = 0, neighbors = [[''a'']] \<rparr>)],
                    entryPointId = Some ''a'', M = 16, efConstruction = 200, efSearch = 200,
                    levelMultiplier = inv_log 16, maxLevel = 0 \<rparr>,
       initialized = True,
       documents = [(''a'', docA\<lparr> doc_embedding := Some [1, 0] \<rparr>),
                    (''b'', docB\<lparr> doc_embedding := Some [1, 0] \<rparr>)],
       meta = Some \<lparr> j_M = 16, j_efConstruction = 200, j_efSearch = 200,
                     j_levelMultiplier = inv_log 16, j_maxLevel = 0, j_entryPointId = Some ''a'',
                     j_nodes = [] \<rparr>,
       hnsw_nodes = [(''a'', \<lparr> j_id = ''a'', j_vector = [1, 0], j_level = 0, j_neighbors = [[''b'']] \<rparr>),
                     (''b'', \<lparr> j_id = ''b'', j_vector = [1, 0], j_level = 0, j_neighbors = [[''a'']] \<rparr>)] \<rparr>"

text \<open>
  Graphs without dangling ids.  \<open>has_layer ns l x\<close>: the id \<open>x\<close> is stored and its node has a
  neighbour list on layer \<open>l\<close>.  \<open>anchored ns l n\<close>: the node \<open>n\<close> is the one stored under its
  own id and has layer \<open>l\<close>.  In a closed node map every node is stored under its id and every
  id in a neighbour list on layer \<open>l\<close> is stored with a layer \<open>l\<close>; in a closed graph the
  entry point, when set, is stored with a layer \<open>maxLevel\<close>.
\<close>

definition has_layer :: "(string \<times> 'v node) list \<Rightarrow> nat \<Rightarrow> string \<Rightarrow> bool" where
  "has_layer ns l x \<longleftrightarrow> (\<exists>n. map_of ns x = Some n \<and> l < length (neighbors n))"

definition anchored :: "(string \<times> 'v node) list \<Rightarrow> nat \<Rightarrow> 'v node \<Rightarrow> bool" where
  "anchored ns l n \<longleftrightarrow> map_of ns (node_id n) = Some n \<and> l < length (neighbors n)"

definition closed_nodes :: "(string \<times> 'v node) list \<Rightarrow> bool" where
  "closed_nodes ns \<longleftrightarrow>
     (\<forall>k n. map_of ns k = Some n \<longrightarrow>
        node_id n = k \<and>
        (\<forall>l < length (neighbors n). \<forall>x \<in> set (neighbors n ! l). has_layer ns l x))"

definition graph_closed :: "'v hnsw \<Rightarrow> bool" where
  "graph_closed g \<longleftrightarrow>
     closed_nodes (nodes g) \<and>
     (\<forall>ep. entryPointId g = Some ep \<longrightarrow> has_layer (nodes g) (maxLevel g) ep)"

text \<open>The invariant of the search loop on a closed node map.\<close>

definition beam_ok :: "(string \<times> 'v node) list \<Rightarrow> nat \<Rightarrow> beam \<Rightarrow> bool" where
  "beam_ok ns l st \<longleftrightarrow>
     (case st of (v, C, W) \<Rightarrow>
        (\<forall>c \<in> set C. has_layer ns l (cid c)) \<and> (\<forall>w \<in> set W. has_layer ns l (cid w)) \<and>
        W \<noteq> [] \<and> cid ` set W \<subseteq> v \<and> distinct (map cid W))"


text \<open>
  \<open>reach ns l x\<close>: the ids one arrives at from \<open>x\<close> by following neighbour lists on layer
  \<open>l\<close>, \<open>x\<close> itself among them.
\<close>

inductive_set reach :: "(string \<times> 'v node) list \<Rightarrow> nat \<Rightarrow> string \<Rightarrow> string set"
  for ns :: "(string \<times> 'v node) list" and l :: nat and x :: string where
  reach_start: "x \<in> reach ns l x"
| reach_step: "y \<in> reach ns l x \<Longrightarrow> map_of ns y = Some n \<Longrightarrow> l < length (neighbors n) \<Longrightarrow>
     z \<in> set (neighbors n ! l) \<Longrightarrow> z \<in> reach ns l x"



text \<open>
  What the stores hold after a crash that lost the node \<open>b\<close> of \<open>index2\<close>, and the index
  that \<open>fromJSON\<close> builds from it: the list of \<open>a\<close> on layer 0 names the absent \<open>b\<close>.
\<close>

definition ghost_json :: "real list json_index" where
  "ghost_json = \<lparr> j_M = 1, j_efConstruction = 200, j_efSearch = 200,
                   j_levelMultiplier = Fin (1 / 2), j_maxLevel = 0, j_entryPointId = Some ''a'',
                   j_nodes = [\<lparr> j_id = ''a'', j_vector = [1, 0], j_level = 0,
                                j_neighbors = [[''b'']] \<rparr>] \<rparr>"

definition ghost_index :: "real list hnsw" where
  "ghost_index = fromJSON keep ghost_json"

text \<open>The same with a node \<open>a\<close> of level 1 whose list on layer 1 names the absent \<open>b\<close>.\<close>

definition ghost_json_top :: "real list json_index" where
  "ghost_json_top = \<lparr> j_M = 1, j_efConstruction = 200, j_efSearch = 200,
                       j_levelMultiplier = Fin (1 / 2), j_maxLevel = 1, j_entryPointId = Some ''a'',
                       j_nodes = [\<lparr> j_id = ''a'', j_vector = [1, 0], j_level = 1,
                                    j_neighbors = [[], [''b'']] \<rparr>] \<rparr>"

definition ghost_index_top :: "real list hnsw" where
  "ghost_index_top = fromJSON keep ghost_json_top"




section \<open>Properties\<close>

declare climb.simps [simp del]
declare search_loop.simps [simp del]

subsection \<open>Which errors the engine raises\<close>

lemma layer_of_error: "layer_of n l = Inl e \<Longrightarrow> e = TypeError"
  by (simp add: layer_of_def split: if_splits)

lemma scan_best_error: "scan_best d ns q ids acc = Inl e \<Longrightarrow> e = TypeError"
  by (induction d ns q ids acc rule: scan_best.induct) (auto split: option.splits if_splits)

lemma climb_error: "climb d ns q l cur cd = Inl e \<Longrightarrow> e = TypeError"
proof (induction d ns q l cur cd rule: climb.induct)
  case (1 d ns q l currObj currDist)
  from "1.prems" show ?case
    apply (subst (asm) climb.simps)
    apply (auto split: sum.splits option.splits prod.splits dest: layer_of_error scan_best_error
        intro: "1.IH")
    done
qed

lemma descend_error: "descend d ns q ls st = Inl e \<Longrightarrow> e = TypeError"
  by (induction d ns q ls st rule: descend.induct) (auto split: sum.splits dest: climb_error)

lemma expand_error: "expand d ns q ef fs nbrs st = Inl e \<Longrightarrow> e = TypeError"
  by (induction d ns q ef fs nbrs st rule: expand.induct) (auto split: option.splits if_splits)

lemma search_loop_error: "search_loop d ns q ef l st = Inl e \<Longrightarrow> e = TypeError"
proof (induction d ns q ef l st rule: search_loop.induct)
  case (1 d ns q ef l v C W)
  from "1.prems" show ?case
    apply (subst (asm) search_loop.simps)
    apply (auto split: sum.splits option.splits if_splits dest: layer_of_error expand_error
        intro: "1.IH")
    done
qed

lemma searchLayer_error: "searchLayer d ns q entry ef l = Inl e \<Longrightarrow> e = TypeError"
  unfolding searchLayer_def by (rule search_loop_error)

lemma rescore_error: "rescore d ns u ids = Inl e \<Longrightarrow> e = TypeError"
  by (induction ids arbitrary: e) (auto split: option.splits sum.splits)

lemma link_back_error: "link_back d m newid l ni st = Inl (e, st') \<Longrightarrow> e = TypeError"
  by (auto simp: link_back_def Let_def split: prod.splits option.splits if_splits sum.splits
      dest: rescore_error)

lemma link_all_error: "link_all d m newid l nis st = Inl (e, st') \<Longrightarrow> e = TypeError"
  by (induction nis arbitrary: st) (auto split: sum.splits dest: link_back_error)

lemma connect_layer_error: "connect_layer d m efc newid q l st = Inl (e, st') \<Longrightarrow> e = TypeError"
  by (auto simp: connect_layer_def split: prod.splits option.splits sum.splits
      dest: searchLayer_error link_all_error)

lemma connect_error: "connect d m efc newid q ls st = Inl (e, st') \<Longrightarrow> e = TypeError"
  by (induction ls arbitrary: st) (auto split: sum.splits dest: connect_layer_error)

lemma addPoint_error_kind:
  "addPoint f32 d rnd g newid vec = Inl (e, g') \<Longrightarrow>
   (e = DuplicateId \<and> map_of (nodes g) newid \<noteq> None \<and> g' = g) \<or>
   (e = TypeError \<and> map_of (nodes g) newid = None)"
  by (auto simp: addPoint_def Let_def split: if_splits option.splits sum.splits prod.splits
      dest: descend_error connect_error)

lemma key_present_iff: "k \<in> fst ` set ns \<longleftrightarrow> map_of ns k \<noteq> None"
  by (simp add: map_of_eq_None_iff)

subsection \<open>Evaluation of the concrete inputs\<close>

lemma level_of_draws: "getRandomLevel (Fin (1 / 2)) draws = 0"
  by (simp add: getRandomLevel_def draws_def upt_rec)

lemma index0_eq:
  "index0 = \<lparr> nodes = [], entryPointId = None, M = 1, efConstruction = 200, efSearch = 200,
              levelMultiplier = Fin (1 / 2), maxLevel = 0 \<rparr>"
  by (simp add: index0_def new_index_def config1_def or_default_def or_default_num_def)

lemma addPoint_index0: "addPoint keep cosine draws index0 ''a'' [1, 0] = Inr (index1, {''a''})"
  by (simp add: addPoint_def index0_eq index1_def level_of_draws keep_def)

lemma cosine_unit:
  "cosine [1, 0] [1, 0] = 1000000 / 1000001"
  "cosine [1, 0] [0, 1] = 0"
  "cosine [0, 1] [1, 0] = 0"
  "cosine [0, 1] [0, 1] = 1000000 / 1000001"
  by (simp_all add: cosine_def)

lemmas eval_defs = addPoint_def keep_def new_node_def layers_down_def layers_to_zero_def
  connect_layer_def searchLayer_def search_loop.simps layer_of_def selectNeighbors_def
  sort_desc_def trim_def link_back_def set_layer_def Let_def level_of_draws cosine_unit

lemma addPoint_index1: "addPoint keep cosine draws index1 ''b'' [1, 0] = Inr (index2, {''a'', ''b''})"
  by (simp add: eval_defs index1_def index2_def)

lemma addPoint_index2: "addPoint keep cosine draws index2 ''c'' [0, 1] = Inr (index3, {''a'', ''c''})"
  by (simp add: eval_defs index2_def index3_def)

lemma search_index3:
  "search keep cosine index3 [0, 1] 3 = Inr [\<lparr>cid = ''a'', score = 0\<rparr>, \<lparr>cid = ''b'', score = 0\<rparr>]"
  by (simp add: eval_defs index3_def search_def)

lemma reachable_index0: "reachable keep cosine index0"
  unfolding index0_def by (rule reachable_new)

lemma reachable_index1: "reachable keep cosine index1"
  by (rule reachable_add[OF reachable_index0 addPoint_index0])

lemma reachable_index2: "reachable keep cosine index2"
  by (rule reachable_add[OF reachable_index1 addPoint_index1])

lemma reachable_index3: "reachable keep cosine index3"
  by (rule reachable_add[OF reachable_index2 addPoint_index2])

subsection \<open>Duplicate ids\<close>

text \<open>
  C3.  When the id is a key of the node map, \<open>addPoint\<close> fails with the duplicate-id error
  and leaves the index (node map, entry point, maximal level) as it was; when the id is not
  a key, whatever \<open>addPoint\<close> does, it does not fail with the duplicate-id error.
\<close>

theorem addPoint_duplicate_id:
  "(newid \<in> fst ` set (nodes g) \<longrightarrow> addPoint f32 d rnd g newid vec = Inl (DuplicateId, g)) \<and>
   (newid \<notin> fst ` set (nodes g) \<longrightarrow> (\<forall>g'. addPoint f32 d rnd g newid vec \<noteq> Inl (DuplicateId, g')))"
proof (intro conjI impI allI)
  assume "newid \<in> fst ` set (nodes g)"
  then have "map_of (nodes g) newid \<noteq> None" by (simp add: key_present_iff)
  then show "addPoint f32 d rnd g newid vec = Inl (DuplicateId, g)"
    by (simp add: addPoint_def)
next
  fix g'
  assume "newid \<notin> fst ` set (nodes g)"
  then have absent: "map_of (nodes g) newid = None" by (simp add: key_present_iff)
  show "addPoint f32 d rnd g newid vec \<noteq> Inl (DuplicateId, g')"
  proof
    assume "addPoint f32 d rnd g newid vec = Inl (DuplicateId, g')"
    from addPoint_error_kind[OF this] absent show False by simp
  qed
qed

theorem addPoint_duplicate_id_witness:
  "''a'' \<in> fst ` set (nodes index1) \<and>
   addPoint keep cosine draws index1 ''a'' [0, 1] = Inl (DuplicateId, index1) \<and>
   ''a'' \<notin> fst ` set (nodes index0) \<and>
   (\<forall>g'. addPoint keep cosine draws index0 ''a'' [1, 0] \<noteq> Inl (DuplicateId, g'))"
  using addPoint_duplicate_id[of "''a''" index1 keep cosine draws "[0, 1]"]
    addPoint_duplicate_id[of "''a''" index0 keep cosine draws "[1, 0]"]
  by (simp add: index1_def index0_eq)

subsection \<open>What a successful addPoint changes\<close>

lemma update_absent: "map_of ns k = None \<Longrightarrow> AList.update k v ns = ns @ [(k, v)]"
  by (induction ns) (auto split: if_splits)

lemma shape_map_entry: "shape (AList.map_entry k (set_layer l ids) ns) = shape ns"
  by (induction ns) (auto simp: shape_def set_layer_def)

lemma link_back_shape:
  "link_back d m newid l ni (ns, t) = Inr (ns', t') \<Longrightarrow> shape ns' = shape ns"
  by (auto simp: link_back_def Let_def shape_map_entry split: option.splits if_splits sum.splits)

lemma link_all_shape:
  "link_all d m newid l nis (ns, t) = Inr (ns', t') \<Longrightarrow> shape ns' = shape ns"
proof (induction nis arbitrary: ns t)
  case Nil
  then show ?case by simp
next
  case (Cons ni rest)
  then show ?case
    by (auto split: sum.splits dest!: link_back_shape)
qed

lemma connect_layer_shape:
  "connect_layer d m efc newid q l (ns, t, cur) = Inr (ns', t', cur') \<Longrightarrow> shape ns' = shape ns"
  by (auto simp: connect_layer_def shape_map_entry split: option.splits sum.splits
      dest!: link_all_shape)

lemma connect_shape:
  "connect d m efc newid q ls (ns, t, cur) = Inr (ns', t', cur') \<Longrightarrow> shape ns' = shape ns"
proof (induction ls arbitrary: ns t cur)
  case Nil
  then show ?case by simp
next
  case (Cons l rest)
  then show ?case
    by (auto split: sum.splits dest!: connect_layer_shape)
qed

lemma addPoint_success:
  assumes "addPoint f32 d rnd g newid vec = Inr (g', t)"
  defines "lvl \<equiv> getRandomLevel (levelMultiplier g) rnd"
  shows "map_of (nodes g) newid = None"
    and "shape (nodes g') = shape (nodes g) @ [(newid, newid, f32 vec, lvl, Suc lvl)]"
    and "M g' = M g" and "efConstruction g' = efConstruction g" and "efSearch g' = efSearch g"
    and "levelMultiplier g' = levelMultiplier g"
    and "entryPointId g = None \<Longrightarrow> entryPointId g' = Some newid \<and> maxLevel g' = lvl"
    and "entryPointId g \<noteq> None \<Longrightarrow> lvl > maxLevel g \<Longrightarrow>
           entryPointId g' = Some newid \<and> maxLevel g' = lvl"
    and "entryPointId g \<noteq> None \<Longrightarrow> \<not> lvl > maxLevel g \<Longrightarrow>
           entryPointId g' = entryPointId g \<and> maxLevel g' = maxLevel g"
proof -
  from assms(1) show absent: "map_of (nodes g) newid = None"
    by (auto simp: addPoint_def split: if_splits)
  have s0: "shape (AList.update newid (new_node newid (f32 vec) lvl) (nodes g))
            = shape (nodes g) @ [(newid, newid, f32 vec, lvl, Suc lvl)]"
    by (simp add: update_absent[OF absent] shape_def new_node_def)
  from assms(1) absent s0 show "shape (nodes g') = shape (nodes g) @ [(newid, newid, f32 vec, lvl, Suc lvl)]"
    by (auto simp: addPoint_def Let_def lvl_def split: option.splits sum.splits prod.splits if_splits
        dest!: connect_shape)
  from assms(1) absent show "M g' = M g" "efConstruction g' = efConstruction g"
    "efSearch g' = efSearch g" "levelMultiplier g' = levelMultiplier g"
    by (auto simp: addPoint_def Let_def split: option.splits sum.splits prod.splits if_splits)
  from assms(1) absent show "entryPointId g = None \<Longrightarrow> entryPointId g' = Some newid \<and> maxLevel g' = lvl"
    by (auto simp: addPoint_def Let_def lvl_def split: option.splits sum.splits prod.splits if_splits)
  from assms(1) absent show "entryPointId g \<noteq> None \<Longrightarrow> lvl > maxLevel g \<Longrightarrow>
           entryPointId g' = Some newid \<and> maxLevel g' = lvl"
    by (auto simp: addPoint_def Let_def lvl_def split: option.splits sum.splits prod.splits if_splits)
  from assms(1) absent show "entryPointId g \<noteq> None \<Longrightarrow> \<not> lvl > maxLevel g \<Longrightarrow>
           entryPointId g' = entryPointId g \<and> maxLevel g' = maxLevel g"
    by (auto simp: addPoint_def Let_def lvl_def split: option.splits sum.splits prod.splits if_splits)
qed

subsection \<open>Entry point and maximal level\<close>

lemma map_of_shape:
  "map_of (shape ns) k =
   map_option (\<lambda>n. (node_id n, vector n, level n, length (neighbors n))) (map_of ns k)"
  by (induction ns) (auto simp: shape_def)

lemma level_via_shape:
  "map_option level (map_of ns k) = map_option (\<lambda>(i, v, lv, len). lv) (map_of (shape ns) k)"
  by (simp add: map_of_shape option.map_comp comp_def)

lemma levels_via_shape:
  "(\<forall>(k, n) \<in> set ns. level n \<le> m) \<longleftrightarrow> (\<forall>(k, i, v, lv, len) \<in> set (shape ns). lv \<le> m)"
  by (induction ns) (auto simp: shape_def)

lemma shape_Nil_iff: "shape ns = [] \<longleftrightarrow> ns = []"
  by (simp add: shape_def)

text \<open>The invariant behind C6 and C10.\<close>

lemma reachable_entry_inv:
  "reachable f32 d g \<Longrightarrow>
     (entryPointId g = None \<longleftrightarrow> nodes g = []) \<and>
     (entryPointId g = None \<longrightarrow> maxLevel g = 0) \<and>
     (\<forall>ep. entryPointId g = Some ep \<longrightarrow> map_option level (map_of (nodes g) ep) = Some (maxLevel g)) \<and>
     (\<forall>(k, n) \<in> set (nodes g). level n \<le> maxLevel g)"
proof (induction rule: reachable.induct)
  case (reachable_new config)
  show ?case by (simp add: new_index_def Let_def)
next
  case (reachable_add g rnd newid vec g' touched)
  define lvl where "lvl = getRandomLevel (levelMultiplier g) rnd"
  note ok = addPoint_success[OF reachable_add.hyps(2), folded lvl_def]
  have absent: "map_of (shape (nodes g)) newid = None"
    using ok(1) by (simp add: map_of_shape)
  have sh: "shape (nodes g') = shape (nodes g) @ [(newid, newid, f32 vec, lvl, Suc lvl)]"
    by (rule ok(2))
  have ne: "nodes g' \<noteq> []"
    using sh by (auto simp: shape_def)
  show ?case
  proof (cases "entryPointId g")
    case None
    with reachable_add.IH have empty: "nodes g = []" by simp
    from ok(7)[OF None] have e': "entryPointId g' = Some newid" and m': "maxLevel g' = lvl" by simp_all
    have "map_option level (map_of (nodes g') newid) = Some lvl"
      unfolding level_via_shape sh using empty by (simp add: shape_def)
    moreover have "\<forall>(k, n) \<in> set (nodes g'). level n \<le> lvl"
      unfolding levels_via_shape sh using empty by (simp add: shape_def)
    ultimately show ?thesis using e' m' ne by simp
  next
    case (Some ep)
    then have some: "entryPointId g \<noteq> None" by simp
    from reachable_add.IH Some have old: "map_option level (map_of (nodes g) ep) = Some (maxLevel g)"
      and le: "\<forall>(k, n) \<in> set (nodes g). level n \<le> maxLevel g" by simp_all
    show ?thesis
    proof (cases "lvl > maxLevel g")
      case True
      from ok(8)[OF some True] have e': "entryPointId g' = Some newid" and m': "maxLevel g' = lvl"
        by simp_all
      have "map_option level (map_of (nodes g') newid) = Some lvl"
        unfolding level_via_shape sh using absent by (simp add: map_add_def)
      moreover have "\<forall>(k, n) \<in> set (nodes g'). level n \<le> lvl"
        unfolding levels_via_shape sh using le[unfolded levels_via_shape] True by auto
      ultimately show ?thesis using e' m' ne by simp
    next
      case False
      from ok(9)[OF some False] Some have e': "entryPointId g' = Some ep"
        and m': "maxLevel g' = maxLevel g" by simp_all
      from old obtain x where "map_of (shape (nodes g)) ep = Some x"
        and "(\<lambda>(i, v, lv, len). lv) x = maxLevel g"
        unfolding level_via_shape by auto
      then have "map_option level (map_of (nodes g') ep) = Some (maxLevel g)"
        unfolding level_via_shape sh by (simp add: map_add_def)
      moreover have "\<forall>(k, n) \<in> set (nodes g'). level n \<le> maxLevel g"
        unfolding levels_via_shape sh using le[unfolded levels_via_shape] False by auto
      ultimately show ?thesis using e' m' ne by simp
    qed
  qed
qed

text \<open>
  C6.  In every state reached from a freshly constructed index by successful \<open>addPoint\<close>
  calls, \<open>entryPointId\<close> is null exactly when the node map is empty; otherwise it is the key
  of a stored node whose level is \<open>maxLevel\<close>, and no stored node has a level above
  \<open>maxLevel\<close>.
\<close>

theorem entry_point_invariant:
  "reachable f32 d g \<Longrightarrow>
     (entryPointId g = None \<longleftrightarrow> nodes g = []) \<and>
     (\<forall>ep. entryPointId g = Some ep \<longrightarrow>
         (\<exists>n. map_of (nodes g) ep = Some n \<and> level n = maxLevel g)) \<and>
     (\<forall>(k, n) \<in> set (nodes g). level n \<le> maxLevel g)"
proof -
  assume r: "reachable f32 d g"
  note inv = reachable_entry_inv[OF r]
  have "\<exists>n. map_of (nodes g) ep = Some n \<and> level n = maxLevel g"
    if "entryPointId g = Some ep" for ep
  proof -
    from inv that have "map_option level (map_of (nodes g) ep) = Some (maxLevel g)" by simp
    then show ?thesis by auto
  qed
  with inv show ?thesis by blast
qed

theorem entry_point_invariant_witness:
  "reachable keep cosine index3 \<and> entryPointId index3 = Some ''a'' \<and> nodes index3 \<noteq> [] \<and>
   (\<exists>n. map_of (nodes index3) ''a'' = Some n \<and> level n = maxLevel index3) \<and>
   list_all (\<lambda>(k, n). level n \<le> maxLevel index3) (nodes index3)"
  using entry_point_invariant[OF reachable_index3] reachable_index3
  by (simp add: index3_def)

lemma adds_reachable: "adds f32 d g g' \<Longrightarrow> reachable f32 d g \<Longrightarrow> reachable f32 d g'"
  by (induction rule: adds.induct) (auto intro: reachable_add)

lemma addPoint_monotone:
  assumes r: "reachable f32 d g" and a: "addPoint f32 d rnd g newid vec = Inr (g', touched)"
  shows "maxLevel g \<le> maxLevel g'" and "entryPointId g' \<noteq> None"
proof -
  define lvl where "lvl = getRandomLevel (levelMultiplier g) rnd"
  note ok = addPoint_success[OF a, folded lvl_def]
  note inv = reachable_entry_inv[OF r]
  show "maxLevel g \<le> maxLevel g'"
  proof (cases "entryPointId g = None")
    case True
    with inv show ?thesis by simp
  next
    case False
    then show ?thesis using ok(8)[OF False] ok(9)[OF False] by (cases "lvl > maxLevel g") simp_all
  qed
  show "entryPointId g' \<noteq> None"
  proof (cases "entryPointId g = None")
    case True
    with ok(7) show ?thesis by simp
  next
    case False
    then show ?thesis using ok(8)[OF False] ok(9)[OF False] by (cases "lvl > maxLevel g") simp_all
  qed
qed

lemma adds_monotone:
  "adds f32 d g g' \<Longrightarrow> reachable f32 d g \<Longrightarrow>
   maxLevel g \<le> maxLevel g' \<and> (entryPointId g \<noteq> None \<longrightarrow> entryPointId g' \<noteq> None)"
proof (induction rule: adds.induct)
  case (adds_none g)
  show ?case by simp
next
  case (adds_more g g1 rnd newid vec g2 touched)
  from adds_reachable[OF adds_more.hyps(1) adds_more.prems] have r1: "reachable f32 d g1" .
  from addPoint_monotone[OF r1 adds_more.hyps(2)] adds_more.IH[OF adds_more.prems]
  show ?case by simp
qed

text \<open>
  C10.  From a reachable state on, across any sequence of successful \<open>addPoint\<close> calls
  \<open>maxLevel\<close> does not decrease and a set entry point does not become null again; and one
  successful call on an index with an entry point moves the entry point exactly when the level
  of the inserted node exceeds the previous \<open>maxLevel\<close>, and then to the inserted node.
\<close>

theorem maxLevel_entry_monotone:
  "reachable f32 d g \<Longrightarrow>
     (adds f32 d g g' \<longrightarrow>
        maxLevel g \<le> maxLevel g' \<and> (entryPointId g \<noteq> None \<longrightarrow> entryPointId g' \<noteq> None)) \<and>
     (addPoint f32 d rnd g newid vec = Inr (g2, touched) \<and> entryPointId g \<noteq> None \<longrightarrow>
        (\<exists>n. map_of (nodes g2) newid = Some n \<and>
             (if level n > maxLevel g then entryPointId g2 = Some newid
              else entryPointId g2 = entryPointId g)))"
proof -
  assume r: "reachable f32 d g"
  have seq: "adds f32 d g g' \<longrightarrow>
        maxLevel g \<le> maxLevel g' \<and> (entryPointId g \<noteq> None \<longrightarrow> entryPointId g' \<noteq> None)"
    using r by (simp add: adds_monotone)
  have one: "\<exists>n. map_of (nodes g2) newid = Some n \<and>
             (if level n > maxLevel g then entryPointId g2 = Some newid
              else entryPointId g2 = entryPointId g)"
    if a: "addPoint f32 d rnd g newid vec = Inr (g2, touched)" and some: "entryPointId g \<noteq> None"
  proof -
    define lvl where "lvl = getRandomLevel (levelMultiplier g) rnd"
    note ok = addPoint_success[OF a, folded lvl_def]
    have "map_of (shape (nodes g)) newid = None"
      using ok(1) by (simp add: map_of_shape)
    then have "map_of (shape (nodes g2)) newid = Some (newid, f32 vec, lvl, Suc lvl)"
      unfolding ok(2) by (simp add: map_add_def)
    then obtain n where n: "map_of (nodes g2) newid = Some n" and ln: "level n = lvl"
      unfolding map_of_shape by auto
    have "if level n > maxLevel g then entryPointId g2 = Some newid
          else entryPointId g2 = entryPointId g"
      using ok(8)[OF some] ok(9)[OF some] ln by simp
    with n show ?thesis by blast
  qed
  from seq one show ?thesis by blast
qed

theorem maxLevel_entry_monotone_witness:
  "reachable keep cosine index1 \<and> adds keep cosine index1 index3 \<and>
   maxLevel index1 \<le> maxLevel index3 \<and> entryPointId index1 \<noteq> None \<and> entryPointId index3 \<noteq> None \<and>
   addPoint keep cosine draws index1 ''b'' [1, 0] = Inr (index2, {''a'', ''b''}) \<and>
   (\<exists>n. map_of (nodes index2) ''b'' = Some n \<and> \<not> level n > maxLevel index1 \<and>
        entryPointId index2 = entryPointId index1)"
proof -
  have a: "adds keep cosine index1 index3"
    by (rule adds_more[OF adds_more[OF adds_none addPoint_index1] addPoint_index2])
  have e: "entryPointId index1 \<noteq> None" by (simp add: index1_def)
  from maxLevel_entry_monotone[OF reachable_index1, of index3 draws "''b''" "[1, 0]" index2 "{''a'', ''b''}"]
    a e addPoint_index1 reachable_index1
  show ?thesis by (auto simp: index1_def index2_def index3_def new_node_def split: if_splits)
qed

subsection \<open>Serialisation\<close>

lemma fold_update_fresh:
  "distinct (map kf xs) \<Longrightarrow> set (map kf xs) \<inter> fst ` set acc = {} \<Longrightarrow>
   fold (\<lambda>x m. AList.update (kf x) (vf x) m) xs acc = acc @ map (\<lambda>x. (kf x, vf x)) xs"
proof (induction xs arbitrary: acc)
  case Nil
  then show ?case by simp
next
  case (Cons x xs)
  from Cons.prems have "kf x \<notin> fst ` set acc" by auto
  then have "map_of acc (kf x) = None" by (simp add: map_of_eq_None_iff)
  then have u: "AList.update (kf x) (vf x) acc = acc @ [(kf x, vf x)]" by (rule update_absent)
  have "set (map kf xs) \<inter> fst ` set (acc @ [(kf x, vf x)]) = {}"
    using Cons.prems by auto
  with Cons.IH[of "acc @ [(kf x, vf x)]"] Cons.prems u show ?case by simp
qed

lemma new_index_instance: "is_instance (new_index config)"
proof -
  have t: "truthy (inv_log m)" if "m \<noteq> 0" for m
  proof (cases "m = 1")
    case True
    then show ?thesis by (simp add: inv_log_def)
  next
    case False
    with that have "1 < real m" by simp
    then have "ln (real m) > 0" by simp
    with False show ?thesis by (simp add: inv_log_def)
  qed
  have m: "or_default x 16 \<noteq> 0" for x
    by (simp add: or_default_def split: option.splits)
  have "truthy (or_default_num y (inv_log (or_default x 16)))" for x y
    using t[OF m[of x]] by (simp add: or_default_num_def split: option.splits)
  then show ?thesis
    by (simp add: is_instance_def new_index_def Let_def or_default_def split: option.splits)
qed

lemma fold_update_distinct:
  "distinct (map fst acc) \<Longrightarrow>
   distinct (map fst (fold (\<lambda>x m. AList.update (kf x) (vf x) m) xs acc))"
  by (induction xs arbitrary: acc) (simp_all add: distinct_update)

lemma fromJSON_instance: "is_instance (fromJSON f32 json)"
  using new_index_instance[of "\<lparr> cfg_M = Some (j_M json), cfg_efConstruction = Some (j_efConstruction json),
                  cfg_efSearch = Some (j_efSearch json),
                  cfg_levelMultiplier = Some (j_levelMultiplier json) \<rparr>"]
  by (auto simp: is_instance_def fromJSON_def fold_update_distinct)

lemma shape_keys: "map fst (shape ns) = map fst ns"
  by (induction ns) (auto simp: shape_def)

lemma addPoint_instance:
  assumes "is_instance g" and "addPoint f32 d rnd g newid vec = Inr (g', touched)"
  shows "is_instance g'"
proof -
  note ok = addPoint_success[OF assms(2)]
  from ok(1) have "newid \<notin> fst ` set (nodes g)" by (simp add: map_of_eq_None_iff)
  then have "newid \<notin> set (map fst (nodes g))" by simp
  moreover have "map fst (nodes g') = map fst (nodes g) @ [newid]"
    using arg_cong[OF ok(2), of "map fst"] by (simp add: shape_keys)
  ultimately have "distinct (map fst (nodes g'))" using assms(1) by (simp add: is_instance_def)
  with assms(1) ok(3-6) show ?thesis by (simp add: is_instance_def)
qed

lemma reachable_instance: "reachable f32 d g \<Longrightarrow> is_instance g"
  by (induction rule: reachable.induct) (auto intro: new_index_instance addPoint_instance)

text \<open>
  C9.  For every index object \<open>g\<close>, \<open>toJSON (fromJSON (toJSON g))\<close> is \<open>toJSON g\<close>:
  parameters, \<open>maxLevel\<close>, \<open>entryPointId\<close> and the id, vector, level and neighbour lists of
  every node, in the same order.  (Widening a single-precision number and
  narrowing it again gives the number back.)
\<close>

theorem toJSON_roundtrip:
  "(\<forall>v. f32 (arr v) = v) \<Longrightarrow> is_instance g \<Longrightarrow>
   toJSON arr (fromJSON f32 (toJSON arr g)) = toJSON arr g"
proof -
  assume conv: "\<forall>v. f32 (arr v) = v" and inst: "is_instance g"
  let ?js = "map (\<lambda>(i, n). \<lparr> j_id = i, j_vector = arr (vector n), j_level = level n,
                                  j_neighbors = neighbors n \<rparr>) (nodes g)"
  have keys: "map j_id ?js = map fst (nodes g)"
    by (simp add: case_prod_beta comp_def)
  from inst have "distinct (map fst (nodes g))" by (simp add: is_instance_def)
  then have dist: "distinct (map j_id ?js)" by (simp only: keys)
  have f: "fold (\<lambda>nodeData m. AList.update (j_id nodeData) (node_of_json f32 nodeData) m) ?js []
           = map (\<lambda>x. (j_id x, node_of_json f32 x)) ?js"
    using fold_update_fresh[OF dist, of "[]" "node_of_json f32"] by simp
  have again: "map (\<lambda>(i, n). \<lparr> j_id = i, j_vector = arr (vector n), j_level = level n,
                                  j_neighbors = neighbors n \<rparr>)
                (map (\<lambda>x. (j_id x, node_of_json f32 x)) ?js) = ?js"
    using conv by (simp add: node_of_json_def case_prod_beta comp_def)
  from inst have p: "M g \<noteq> 0" "efConstruction g \<noteq> 0" "efSearch g \<noteq> 0" "truthy (levelMultiplier g)"
    by (simp_all add: is_instance_def)
  show ?thesis
    using p f again
    by (simp add: toJSON_def fromJSON_def new_index_def Let_def or_default_def or_default_num_def)
qed


theorem toJSON_roundtrip_witness:
  "(\<forall>v. keep (keep v) = v) \<and> is_instance index3 \<and>
   toJSON keep (fromJSON keep (toJSON keep index3)) = toJSON keep index3"
proof -
  have c: "\<forall>v. keep (keep v) = v" by (simp add: keep_def)
  have i: "is_instance index3" by (simp add: is_instance_def index3_def)
  from toJSON_roundtrip[of keep keep index3, OF c i] c i show ?thesis by simp
qed

subsection \<open>The degree bound\<close>













subsection \<open>The migration loop\<close>

declare run_batches.simps [simp del]

lemma updateDocs_ids: "map doc_id (updateDocs batch es) = map doc_id batch"
proof -
  have "map doc_id (updateDocs batch es) = map doc_id (map fst (zip batch [0 ..< length batch]))"
    by (simp add: updateDocs_def case_prod_beta comp_def del: map_fst_zip)
  then show ?thesis by simp
qed

lemma updateDocs_length: "length (updateDocs batch es) = length batch"
  by (simp add: updateDocs_def)

lemma signal_fields:
  "shouldStop (signal b mgr) = (b \<or> shouldStop mgr)"
  "status (signal b mgr) = status mgr"
  "isRunning (signal b mgr) = isRunning mgr"
  by (simp_all add: signal_def stop_def)

lemma loop_inv_exit:
  assumes inv: "loop_inv stops allDocs i pc iter mgr batches"
    and ex: "\<not> i < length allDocs \<or> shouldStop mgr"
  shows "loop_post stops allDocs mgr None mgr batches"
proof -
  from inv have len: "length batches = iter" and no: "\<forall>j < iter. \<not> stops j"
    and pc: "pc = length (concat batches)" "pc = min i (length allDocs)"
    and ids: "map doc_id (concat batches) = take pc (map doc_id allDocs)"
    and ss: "shouldStop mgr \<longleftrightarrow> stops iter"
    and pr: "batches \<noteq> [] \<longrightarrow> st_processed (status mgr) = pc"
    by (simp_all add: loop_inv_def)
  have a: "\<forall>j. stops j \<longrightarrow> length batches \<le> j"
    using len no by (meson not_le_imp_less)
  have e: "\<not> shouldStop mgr \<longrightarrow> length (concat batches) = length allDocs"
    using ex pc by auto
  show ?thesis
    unfolding loop_post_def using a e ss len ids pc pr by simp
qed

lemma loop_inv_error:
  assumes inv: "loop_inv stops allDocs i pc iter mgr batches"
    and go: "\<not> shouldStop mgr"
  shows "loop_post stops allDocs mgr (Some e) (signal b mgr) batches"
proof -
  from inv have len: "length batches = iter" and no: "\<forall>j < iter. \<not> stops j"
    and pc: "pc = length (concat batches)"
    and ids: "map doc_id (concat batches) = take pc (map doc_id allDocs)"
    and pr: "batches \<noteq> [] \<longrightarrow> st_processed (status mgr) = pc"
    by (simp_all add: loop_inv_def)
  have a: "\<forall>j. stops j \<longrightarrow> length batches \<le> j"
    using len no by (meson not_le_imp_less)
  show ?thesis
    unfolding loop_post_def using a ids pc pr by (simp add: signal_fields)
qed


lemma loop_inv_step:
  assumes inv: "loop_inv stops allDocs i pc iter mgr batches"
    and lt: "i < length allDocs" and go: "\<not> shouldStop mgr"
    and ne: "take batchSize (drop i allDocs) \<noteq> []"
  shows "loop_inv stops allDocs (i + batchSize) (pc + length (take batchSize (drop i allDocs)))
           (Suc iter)
           (signal (stops (Suc iter))
              (mgr\<lparr> status := (status mgr)
                     \<lparr> st_processed := pc + length (take batchSize (drop i allDocs)),
                       st_lastProcessedId := lid \<rparr> \<rparr>))
           (batches @ [updateDocs (take batchSize (drop i allDocs)) es])"
proof -
  let ?batch = "take batchSize (drop i allDocs)"
  from inv have len: "length batches = iter" and no: "\<forall>j < iter. \<not> stops j"
    and pc: "pc = length (concat batches)" "pc = min i (length allDocs)"
    and ids: "map doc_id (concat batches) = take pc (map doc_id allDocs)"
    and ss: "shouldStop mgr \<longleftrightarrow> stops iter"
    by (simp_all add: loop_inv_def)
  from pc lt have pci: "pc = i" by simp
  have no': "\<forall>j < Suc iter. \<not> stops j"
    using no ss go by (auto simp: less_Suc_eq)
  have l: "length ?batch = min batchSize (length allDocs - i)" by simp
  have m: "pc + length ?batch = min (i + batchSize) (length allDocs)"
    using pci lt by auto
  have "map doc_id (concat (batches @ [updateDocs ?batch es]))
        = take i (map doc_id allDocs) @ map doc_id ?batch"
    using ids pci by (simp add: updateDocs_ids)
  also have "map doc_id ?batch = take batchSize (drop i (map doc_id allDocs))"
    by (simp add: take_map drop_map)
  also have "take i (map doc_id allDocs) @ take batchSize (drop i (map doc_id allDocs))
        = take (i + batchSize) (map doc_id allDocs)"
    by (simp add: take_add)
  also have "\<dots> = take (pc + length ?batch) (map doc_id allDocs)"
    unfolding m by (simp add: min_def)
  finally have ids': "map doc_id (concat (batches @ [updateDocs ?batch es]))
        = take (pc + length ?batch) (map doc_id allDocs)" .
  show ?thesis
    unfolding loop_inv_def
    using len no' m ids' pc(1) go
    by (simp add: signal_fields updateDocs_length)
qed

lemma run_batches_grows:
  "run_batches f32 arr d emb rnds stops batchSize allDocs i pc iter (mgr, vt, batches)
     = (res, mgr', vt', batches') \<Longrightarrow> length batches \<le> length batches'"
proof (induction f32 arr d emb rnds stops batchSize allDocs i pc iter "(mgr, vt, batches)"
    arbitrary: mgr vt batches rule: run_batches.induct)
  case (1 f32 arr d embedBatch rnds stops batchSize allDocs i processedCount iter mgr vt batches)
  let ?batch = "take batchSize (drop i allDocs)"
  note run = "1.prems"
  show ?case
  proof (cases "i < length allDocs \<and> \<not> shouldStop mgr \<and>
      (\<exists>es y. embedBatch (map doc_text ?batch) = Inr es \<and>
         indexDocuments f32 arr d (rnds iter) vt (updateDocs ?batch es) = (None, y) \<and> ?batch \<noteq> [])")
    case True
    then obtain es y where lt: "\<not> \<not> i < length allDocs" and go: "\<not> shouldStop mgr"
      and em: "embedBatch (map doc_text ?batch) = Inr es"
      and ix: "(None, y) = indexDocuments f32 arr d (rnds iter) vt (updateDocs ?batch es)"
      and ne: "?batch \<noteq> []"
      by auto
    from run lt go em ix[symmetric] ne obtain m1 where
      "run_batches f32 arr d embedBatch rnds stops batchSize allDocs (i + batchSize)
         (processedCount + length ?batch) (Suc iter)
         (m1, y, batches @ [updateDocs ?batch es]) = (res, mgr', vt', batches')"
      and "m1 = signal (stops (Suc iter))
                         (mgr\<lparr> status := (status mgr)
                                \<lparr> st_processed := processedCount + length ?batch,
                                  st_lastProcessedId := Some (doc_id (last ?batch)) \<rparr> \<rparr>)"
      by (subst (asm) run_batches.simps) simp
    with "1.hyps"[OF lt go em ix refl ne] have "length (batches @ [updateDocs ?batch es]) \<le> length batches'"
      by simp
    then show ?thesis by simp
  next
    case False
    with run show ?thesis
      by (subst (asm) run_batches.simps) (auto split: if_splits sum.splits prod.splits option.splits)
  qed
qed

lemma run_batches_post:
  "loop_inv stops allDocs i pc iter mgr batches \<Longrightarrow>
   run_batches f32 arr d emb rnds stops batchSize allDocs i pc iter (mgr, vt, batches)
     = (res, mgr', vt', batches') \<Longrightarrow>
   loop_post stops allDocs mgr res mgr' batches'"
proof (induction f32 arr d emb rnds stops batchSize allDocs i pc iter "(mgr, vt, batches)"
    arbitrary: mgr vt batches rule: run_batches.induct)
  case (1 f32 arr d embedBatch rnds stops batchSize allDocs i processedCount iter mgr vt batches)
  let ?batch = "take batchSize (drop i allDocs)"
  note inv = "1.prems"(1) and run = "1.prems"(2)
  show ?case
  proof (cases "\<not> i < length allDocs \<or> shouldStop mgr")
    case True
    have "run_batches f32 arr d embedBatch rnds stops batchSize allDocs i processedCount iter
            (mgr, vt, batches) = (None, mgr, vt, batches)"
      using True by (cases "i < length allDocs") (simp_all add: run_batches.simps)
    with run have "res = None" "mgr' = mgr" "batches' = batches" by simp_all
    with loop_inv_exit[OF inv True] show ?thesis by simp
  next
    case False
    then have lt: "i < length allDocs" and go: "\<not> shouldStop mgr" by simp_all
    show ?thesis
    proof (cases "embedBatch (map doc_text ?batch)")
      case (Inl e)
      with run lt go have "res = Some e" "mgr' = signal (stops (Suc iter)) mgr" "batches' = batches"
        by (auto simp: run_batches.simps)
      with loop_inv_error[OF inv go] show ?thesis by simp
    next
      case (Inr es)
      obtain x y where ix: "indexDocuments f32 arr d (rnds iter) vt (updateDocs ?batch es) = (x, y)"
        by (cases "indexDocuments f32 arr d (rnds iter) vt (updateDocs ?batch es)")
      show ?thesis
      proof (cases x)
        case (Some e)
        with run lt go Inr ix have "res = Some e" "mgr' = signal (stops (Suc iter)) mgr"
          "batches' = batches"
          by (auto simp: run_batches.simps)
        with loop_inv_error[OF inv go] show ?thesis by simp
      next
        case None
        show ?thesis
        proof (cases "?batch = []")
          case True
          with lt have b0: "batchSize = 0" by (cases batchSize) simp_all
          from run lt go Inr ix None True have r: "res = Some TypeError"
            "mgr' = signal (stops (Suc iter))
                      (mgr\<lparr> status := (status mgr)\<lparr> st_processed := processedCount \<rparr> \<rparr>)"
            "batches' = batches @ [updateDocs ?batch es]"
            by (auto simp: run_batches.simps)
          from inv have len: "length batches = iter" and no: "\<forall>j < iter. \<not> stops j"
            and pc: "processedCount = length (concat batches)"
            and ids: "map doc_id (concat batches) = take processedCount (map doc_id allDocs)"
            and ss: "shouldStop mgr \<longleftrightarrow> stops iter"
            by (simp_all add: loop_inv_def)
          have a: "\<forall>j. stops j \<longrightarrow> Suc iter \<le> j"
            using no ss go by (metis Suc_leI le_neq_implies_less not_le_imp_less)
          have u: "updateDocs ?batch es = []" using True by (simp add: updateDocs_def)
          from inv have pr: "batches \<noteq> [] \<longrightarrow> st_processed (status mgr) = processedCount"
            by (simp add: loop_inv_def)
          show ?thesis
            unfolding loop_post_def r u using a len pc ids
            by (simp add: signal_fields)
        next
          case ne: False
          let ?mgr1 = "signal (stops (Suc iter))
                         (mgr\<lparr> status := (status mgr)
                                \<lparr> st_processed := processedCount + length ?batch,
                                  st_lastProcessedId := Some (doc_id (last ?batch)) \<rparr> \<rparr>)"
          from run lt go Inr ix None ne have rec:
            "run_batches f32 arr d embedBatch rnds stops batchSize allDocs (i + batchSize)
               (processedCount + length ?batch) (Suc iter)
               (?mgr1, y, batches @ [updateDocs ?batch es]) = (res, mgr', vt', batches')"
            by (subst (asm) run_batches.simps) simp
          have lt': "\<not> \<not> i < length allDocs" using lt by simp
          note inv1 = loop_inv_step[OF inv lt go ne, where es = es and lid = "Some (doc_id (last ?batch))"]
          from "1.hyps"[OF lt' go Inr ix[symmetric] None ne inv1 rec]
          have post: "loop_post stops allDocs ?mgr1 res mgr' batches'" .
          from run_batches_grows[OF rec] have grow: "batches' \<noteq> []" by auto
          show ?thesis
            using post grow unfolding loop_post_def by (simp add: signal_fields)
        qed
      qed
    qed
  qed
qed

lemma map_insort_key: "map f (insort_key f x xs) = insort (f x) (map f xs)"
  by (induction xs) auto

lemma map_sort_key: "map f (sort_key f xs) = sort (map f xs)"
  by (induction xs) (simp_all add: map_insort_key)

lemma getAll_ids:
  assumes "docs_keyed store"
  shows "map doc_id (getAll store) = sort (map fst store)"
proof -
  from assms have "\<forall>p \<in> set (sort_key fst store). doc_id (snd p) = fst p"
    by (auto simp: docs_keyed_def)
  then have "map doc_id (map snd (sort_key fst store)) = map fst (sort_key fst store)"
    by (simp add: comp_def)
  then show ?thesis by (simp add: getAll_def map_sort_key)
qed

lemma addMany_keyed:
  "docs_keyed store \<Longrightarrow> set (map doc_id docs) \<subseteq> set (map fst store) \<Longrightarrow>
   docs_keyed (addMany docs store) \<and> map fst (addMany docs store) = map fst store"
proof (induction docs arbitrary: store)
  case Nil
  then show ?case by (simp add: addMany_def)
next
  case (Cons doc rest)
  let ?s1 = "AList.update (doc_id doc) doc store"
  from Cons.prems have mem: "doc_id doc \<in> set (map fst store)" by simp
  then have k1: "map fst ?s1 = map fst store" by (simp add: update_keys)
  have "set ?s1 \<subseteq> insert (doc_id doc, doc) (set store)"
    by (induction store) auto
  with Cons.prems(1) k1 have "docs_keyed ?s1"
    by (auto simp: docs_keyed_def)
  from Cons.IH[OF this] Cons.prems(2) k1 show ?case
    by (simp add: addMany_def)
qed

lemma indexDocuments_documents:
  "indexDocuments f32 arr d rnds vt docs = (res, vt') \<Longrightarrow>
   documents vt' = (if res = None then addMany docs (documents vt) else documents vt)"
  by (auto simp: indexDocuments_def init_def saveIndex_def split: sum.splits prod.splits option.splits if_splits)

lemma run_batches_keyed:
  "run_batches f32 arr d emb rnds stops batchSize allDocs i pc iter (mgr, vt, batches)
     = (res, mgr', vt', batches') \<Longrightarrow>
   docs_keyed (documents vt) \<Longrightarrow> set (map doc_id allDocs) \<subseteq> set (map fst (documents vt)) \<Longrightarrow>
   docs_keyed (documents vt') \<and> map fst (documents vt') = map fst (documents vt)"
proof (induction f32 arr d emb rnds stops batchSize allDocs i pc iter "(mgr, vt, batches)"
    arbitrary: mgr vt batches rule: run_batches.induct)
  case (1 f32 arr d embedBatch rnds stops batchSize allDocs i processedCount iter mgr vt batches)
  let ?batch = "take batchSize (drop i allDocs)"
  note run = "1.prems"(1) and keyed = "1.prems"(2) and sub = "1.prems"(3)
  have bsub: "set (map doc_id (updateDocs ?batch es)) \<subseteq> set (map fst (documents vt))" for es
  proof -
    have "set ?batch \<subseteq> set allDocs"
      using set_take_subset[of batchSize "drop i allDocs"] set_drop_subset[of i allDocs] by blast
    then have "doc_id ` set ?batch \<subseteq> doc_id ` set allDocs" by blast
    with sub show ?thesis by (simp add: updateDocs_ids)
  qed
  show ?case
  proof (cases "i < length allDocs \<and> \<not> shouldStop mgr \<and>
      (\<exists>es y. embedBatch (map doc_text ?batch) = Inr es \<and>
         indexDocuments f32 arr d (rnds iter) vt (updateDocs ?batch es) = (None, y) \<and> ?batch \<noteq> [])")
    case True
    then obtain es y where lt: "\<not> \<not> i < length allDocs" and go: "\<not> shouldStop mgr"
      and em: "embedBatch (map doc_text ?batch) = Inr es"
      and ix: "(None, y) = indexDocuments f32 arr d (rnds iter) vt (updateDocs ?batch es)"
      and ne: "?batch \<noteq> []"
      by auto
    from run lt go em ix[symmetric] ne obtain m1 where rec:
      "run_batches f32 arr d embedBatch rnds stops batchSize allDocs (i + batchSize)
         (processedCount + length ?batch) (Suc iter)
         (m1, y, batches @ [updateDocs ?batch es]) = (res, mgr', vt', batches')"
      and m1: "m1 = signal (stops (Suc iter))
                         (mgr\<lparr> status := (status mgr)
                                \<lparr> st_processed := processedCount + length ?batch,
                                  st_lastProcessedId := Some (doc_id (last ?batch)) \<rparr> \<rparr>)"
      by (subst (asm) run_batches.simps) simp
    from indexDocuments_documents[OF ix[symmetric]]
    have dy: "documents y = addMany (updateDocs ?batch es) (documents vt)" by simp
    from addMany_keyed[OF keyed bsub[of es]] dy
    have ky: "docs_keyed (documents y)" and keys: "map fst (documents y) = map fst (documents vt)"
      by simp_all
    from sub keys have sub': "set (map doc_id allDocs) \<subseteq> set (map fst (documents y))" by simp
    from "1.hyps"[OF lt go em ix refl ne rec[unfolded m1] ky sub'] keys show ?thesis by simp
  next
    case False
    have pres: "docs_keyed (documents y) \<and> map fst (documents y) = map fst (documents vt)"
      if "indexDocuments f32 arr d (rnds iter) vt (updateDocs ?batch es) = (x, y)" for es x y
      using indexDocuments_documents[OF that] addMany_keyed[OF keyed bsub[of es]] keyed
      by (cases x) simp_all
    have "vt' = vt \<or> (\<exists>es x. indexDocuments f32 arr d (rnds iter) vt (updateDocs ?batch es) = (x, vt'))"
      using False run
      by (subst (asm) run_batches.simps) (auto split: if_splits sum.splits prod.splits option.splits)
    then show ?thesis
    proof
      assume "vt' = vt"
      with keyed show ?thesis by simp
    next
      assume "\<exists>es x. indexDocuments f32 arr d (rnds iter) vt (updateDocs ?batch es) = (x, vt')"
      then obtain es x where "indexDocuments f32 arr d (rnds iter) vt (updateDocs ?batch es) = (x, vt')"
        by blast
      from pres[OF this] show ?thesis .
    qed
  qed
qed

lemma start_post:
  assumes idle: "\<not> isRunning mgr"
    and run: "start f32 arr d emb rnds stops batchSize (mgr, vt) = (res, mgr1, vt1, batches)"
  shows "\<forall>j. stops j \<longrightarrow> length batches \<le> j"
    and "st_processed (status mgr1) =
           (if batches = [] then st_processed (status mgr) else length (concat batches))"
    and "(\<exists>j \<le> length batches. stops j) \<longrightarrow> st_isComplete (status mgr1) = st_isComplete (status mgr)"
    and "\<not> isRunning mgr1"
    and "map doc_id (concat batches) = take (length (concat batches)) (map doc_id (getAllDocuments vt))"
    and "res = None \<and> (\<forall>j. \<not> stops j) \<longrightarrow>
           map doc_id (concat batches) = map doc_id (getAllDocuments vt) \<and>
           st_isComplete (status mgr1) \<and> st_total (status mgr1) = length (getAllDocuments vt)"
    and "docs_keyed (documents vt) \<longrightarrow>
           docs_keyed (documents vt1) \<and> map doc_id (getAllDocuments vt1) = map doc_id (getAllDocuments vt)"
proof -
  let ?all = "getAllDocuments vt"
  let ?mgr0 = "signal (stops 0)
                 (mgr\<lparr> isRunning := True, shouldStop := False,
                       status := (status mgr)\<lparr> st_total := length ?all \<rparr> \<rparr>)"
  obtain r m v bs where rb:
    "run_batches f32 arr d emb rnds stops batchSize ?all 0 0 0 (?mgr0, resetIndex vt, []) = (r, m, v, bs)"
    by (metis prod_cases4)
  have inv: "loop_inv stops ?all 0 0 0 ?mgr0 []"
    by (simp add: loop_inv_def signal_fields)
  note post = run_batches_post[OF inv rb, unfolded loop_post_def]
  from run idle rb have res: "res = r" and bs: "batches = bs" and v: "vt1 = v"
    by (auto simp: start_def split: option.splits)
  from run idle rb have m1: "mgr1 = (case r of
        Some e \<Rightarrow> m\<lparr> status := (status m)\<lparr> st_error := Some e \<rparr>, isRunning := False \<rparr>
      | None \<Rightarrow> (if \<not> shouldStop m then m\<lparr> status := (status m)\<lparr> st_isComplete := True \<rparr> \<rparr> else m)
                  \<lparr> isRunning := False \<rparr>)"
    by (auto simp: start_def split: option.splits)
  show a: "\<forall>j. stops j \<longrightarrow> length batches \<le> j"
    using post bs by simp
  show "st_processed (status mgr1) =
           (if batches = [] then st_processed (status mgr) else length (concat batches))"
    using post bs m1 by (auto simp: signal_fields split: option.splits)
  show "(\<exists>j \<le> length batches. stops j) \<longrightarrow> st_isComplete (status mgr1) = st_isComplete (status mgr)"
  proof
    assume "\<exists>j \<le> length batches. stops j"
    then obtain j where "j \<le> length batches" "stops j" by blast
    with a have "stops (length batches)" by (metis le_antisym)
    with post bs have "r = None \<longrightarrow> shouldStop m" by simp
    with post m1 show "st_isComplete (status mgr1) = st_isComplete (status mgr)"
      by (auto simp: signal_fields split: option.splits)
  qed
  show "\<not> isRunning mgr1"
    using m1 by (auto split: option.splits)
  show ids: "map doc_id (concat batches) = take (length (concat batches)) (map doc_id ?all)"
    using post bs by simp
  show "res = None \<and> (\<forall>j. \<not> stops j) \<longrightarrow>
           map doc_id (concat batches) = map doc_id ?all \<and>
           st_isComplete (status mgr1) \<and> st_total (status mgr1) = length ?all"
  proof
    assume h: "res = None \<and> (\<forall>j. \<not> stops j)"
    with res post bs have ns: "\<not> shouldStop m" by simp
    with h res post bs have "length (concat batches) = length ?all" by simp
    with ids have "map doc_id (concat batches) = map doc_id ?all" by simp
    moreover have "st_isComplete (status mgr1)" "st_total (status mgr1) = length ?all"
      using m1 h res ns post by (simp_all add: signal_fields)
    ultimately show "map doc_id (concat batches) = map doc_id ?all \<and>
           st_isComplete (status mgr1) \<and> st_total (status mgr1) = length ?all" by simp
  qed
  show "docs_keyed (documents vt) \<longrightarrow>
           docs_keyed (documents vt1) \<and> map doc_id (getAllDocuments vt1) = map doc_id ?all"
  proof
    assume k: "docs_keyed (documents vt)"
    then have k0: "docs_keyed (documents (resetIndex vt))" by (simp add: resetIndex_def)
    have "set (map doc_id ?all) = set (map fst (documents vt))"
      using getAll_ids[OF k] by (simp add: getAllDocuments_def)
    then have sub: "set (map doc_id ?all) \<subseteq> set (map fst (documents (resetIndex vt)))"
      by (simp add: resetIndex_def)
    from run_batches_keyed[OF rb k0 sub] v
    have k1: "docs_keyed (documents vt1)" and keys: "map fst (documents vt1) = map fst (documents vt)"
      by (simp_all add: resetIndex_def)
    from getAll_ids[OF k1] getAll_ids[OF k] keys
    show "docs_keyed (documents vt1) \<and> map doc_id (getAllDocuments vt1) = map doc_id ?all"
      using k1 by (simp add: getAllDocuments_def)
  qed
qed

lemma ln16: "10 / 9 \<le> ln (16::real)"
proof -
  have "exp (10 / 9 :: real) \<le> exp 2" by simp
  also have "exp (2::real) = exp 1 * exp 1" by (simp add: exp_add[symmetric])
  also have "\<dots> \<le> 3 * 3" by (intro mult_mono exp_le) simp_all
  also have "\<dots> \<le> (16::real)" by simp
  finally have "exp (10 / 9 :: real) \<le> 16" .
  then have "ln (exp (10 / 9 :: real)) \<le> ln 16" by (subst ln_le_cancel_iff) simp_all
  then show ?thesis by simp
qed

lemma level_default: "getRandomLevel (inv_log 16) (draws3 a b) = 0"
proof -
  have "ln (16::real) > 0" by simp
  have "\<not> (9 / 10 < 1 / ln (16::real))"
    using ln16 \<open>ln (16::real) > 0\<close> by (simp add: field_simps)
  then show ?thesis
    by (simp add: getRandomLevel_def inv_log_def upt_rec draws3_def)
qed

lemma new_default:
  "(new_index default_config :: real list hnsw) =
   \<lparr> nodes = [], entryPointId = None, M = 16, efConstruction = 200, efSearch = 200,
     levelMultiplier = inv_log 16, maxLevel = 0 \<rparr>"
  by (simp add: new_index_def default_config_def or_default_def or_default_num_def)

lemmas migration_eval = start_def new_manager_def getAllDocuments_def getAll_def resetIndex_def
  run_batches.simps signal_def stop_def stop_in_round0_def never_def docA_def docB_def
  embedder0_def updateDocs_def nth_opt_def indexDocuments_def init_def saveIndex_def addMany_def
  new_default level_default toJSON_def addPoint_def keep_def new_node_def layers_down_def
  layers_to_zero_def connect_layer_def searchLayer_def search_loop.simps layer_of_def
  selectNeighbors_def sort_desc_def trim_def link_back_def set_layer_def Let_def cosine_unit

lemma run1:
  "start keep keep cosine embedder0 draws3 stop_in_round0 1 (new_manager, indexer0) =
   (None, manager1, indexer1, [[docA\<lparr> doc_embedding := Some [1, 0] \<rparr>]])"
  by (simp add: migration_eval indexer0_def indexer1_def manager1_def)

lemma run2:
  "start keep keep cosine embedder0 draws3 never 1 (manager1, indexer1) =
   (None, manager2, indexer2,
    [[docA\<lparr> doc_embedding := Some [1, 0] \<rparr>], [docB\<lparr> doc_embedding := Some [1, 0] \<rparr>]])"
  by (simp add: migration_eval indexer1_def manager1_def indexer2_def manager2_def)

lemma addMany_other:
  "k \<notin> doc_id ` set docs \<Longrightarrow> map_of (addMany docs store) k = map_of store k"
  by (induction docs arbitrary: store) (simp_all add: addMany_def update_conv')

lemma addMany_lookup:
  "distinct (map doc_id docs) \<Longrightarrow> doc \<in> set docs \<Longrightarrow>
   map_of (addMany docs store) (doc_id doc) = Some doc"
proof (induction docs arbitrary: store)
  case Nil
  then show ?case by simp
next
  case (Cons x xs)
  have unf: "addMany (x # xs) store = addMany xs (AList.update (doc_id x) x store)"
    by (simp add: addMany_def)
  show ?case
  proof (cases "doc \<in> set xs")
    case True
    with Cons show ?thesis unfolding unf by simp
  next
    case False
    with Cons.prems have eq: "doc = x" and fresh: "doc_id x \<notin> doc_id ` set xs" by auto
    show ?thesis unfolding unf eq
      by (simp add: addMany_other[OF fresh] update_conv')
  qed
qed

lemma updateDocs_nth:
  "idx < length batch \<Longrightarrow>
   updateDocs batch es ! idx = (batch ! idx)\<lparr> doc_embedding := nth_opt es idx \<rparr>"
  by (simp add: updateDocs_def)

text \<open>
  C8.  For every document of a batch that \<open>indexDocuments\<close> has written back (the ids of a
  batch are distinct, the batch coming from a keyed store), the record stored under its id is
  the original record with the embedding field replaced: id, text, metadata and createdAt
  are those of the original.
\<close>

theorem migration_preserves_fields:
  "indexDocuments f32 arr d rnds vt (updateDocs batch newEmbeddings) = (None, vt') \<Longrightarrow>
   distinct (map doc_id batch) \<Longrightarrow> idx < length batch \<Longrightarrow>
   (\<exists>doc'. map_of (documents vt') (doc_id (batch ! idx)) = Some doc' \<and>
      doc' = (batch ! idx)\<lparr> doc_embedding := nth_opt newEmbeddings idx \<rparr> \<and>
      doc_id doc' = doc_id (batch ! idx) \<and> doc_text doc' = doc_text (batch ! idx) \<and>
      doc_metadata doc' = doc_metadata (batch ! idx) \<and>
      doc_createdAt doc' = doc_createdAt (batch ! idx))"
proof -
  assume ix: "indexDocuments f32 arr d rnds vt (updateDocs batch newEmbeddings) = (None, vt')"
    and dist: "distinct (map doc_id batch)" and idx: "idx < length batch"
  let ?u = "updateDocs batch newEmbeddings"
  let ?doc' = "(batch ! idx)\<lparr> doc_embedding := nth_opt newEmbeddings idx \<rparr>"
  from indexDocuments_documents[OF ix] have dv: "documents vt' = addMany ?u (documents vt)" by simp
  have du: "distinct (map doc_id ?u)" using dist by (simp add: updateDocs_ids)
  have "?u ! idx = ?doc'" using idx by (rule updateDocs_nth)
  moreover have "?u ! idx \<in> set ?u" using idx by (simp add: updateDocs_length)
  ultimately have mem: "?doc' \<in> set ?u" by simp
  from addMany_lookup[OF du mem, of "documents vt"] dv
  have "map_of (documents vt') (doc_id (batch ! idx)) = Some ?doc'" by simp
  then show ?thesis by simp
qed

lemma index_batch0:
  "indexDocuments keep keep cosine (draws3 0) (resetIndex indexer0) (updateDocs [docA] [[1, 0]]) =
   (None, indexer1)"
  by (simp add: migration_eval indexer0_def indexer1_def)

theorem migration_preserves_fields_witness:
  "indexDocuments keep keep cosine (draws3 0) (resetIndex indexer0) (updateDocs [docA] [[1, 0]]) =
     (None, indexer1) \<and>
   distinct (map doc_id [docA]) \<and> (0::nat) < length [docA] \<and>
   map_of (documents indexer1) ''a'' = Some (docA\<lparr> doc_embedding := Some [1, 0] \<rparr>) \<and>
   doc_text (docA\<lparr> doc_embedding := Some [1, 0] \<rparr>) = doc_text docA \<and>
   doc_createdAt (docA\<lparr> doc_embedding := Some [1, 0] \<rparr>) = doc_createdAt docA"
  using migration_preserves_fields[OF index_batch0, of 0] index_batch0
  by (simp add: docA_def nth_opt_def)

subsection \<open>Graphs without dangling ids\<close>

lemma anchored_has_layer: "anchored ns l n \<Longrightarrow> has_layer ns l (node_id n)"
  by (auto simp: anchored_def has_layer_def)

lemma anchored_lower: "anchored ns l n \<Longrightarrow> l' \<le> l \<Longrightarrow> anchored ns l' n"
  by (simp add: anchored_def)

lemma has_layer_anchored:
  "closed_nodes ns \<Longrightarrow> map_of ns x = Some n \<Longrightarrow> l < length (neighbors n) \<Longrightarrow> anchored ns l n"
  by (auto simp: closed_nodes_def anchored_def)

lemma closed_layer:
  "closed_nodes ns \<Longrightarrow> anchored ns l n \<Longrightarrow> \<forall>x \<in> set (neighbors n ! l). has_layer ns l x"
  by (auto simp: closed_nodes_def anchored_def)

lemma scan_best_ok:
  "closed_nodes ns \<Longrightarrow> \<forall>x \<in> set ids. has_layer ns l x \<Longrightarrow>
   (\<forall>b. fst acc = Some b \<longrightarrow> anchored ns l b) \<Longrightarrow>
   \<exists>bo c. scan_best d ns q ids acc = Inr (bo, c) \<and> (\<forall>b. bo = Some b \<longrightarrow> anchored ns l b)"
proof (induction ids arbitrary: acc)
  case Nil
  then show ?case by (cases acc) simp
next
  case (Cons nid rest)
  obtain b0 c0 where acc: "acc = (b0, c0)" by (cases acc)
  from Cons.prems(2) obtain n where n: "map_of ns nid = Some n" and ln: "l < length (neighbors n)"
    by (auto simp: has_layer_def)
  from has_layer_anchored[OF Cons.prems(1) n ln] have an: "anchored ns l n" .
  from Cons.prems(2) have rest: "\<forall>x \<in> set rest. has_layer ns l x" by simp
  show ?case
  proof (cases "d q (vector n) > c0")
    case True
    from Cons.IH[OF Cons.prems(1) rest, of "(Some n, d q (vector n))"] an
    show ?thesis using acc n True by simp
  next
    case False
    from Cons.IH[OF Cons.prems(1) rest, of "(b0, c0)"] Cons.prems(3) acc
    show ?thesis using n False by simp
  qed
qed

lemma climb_ok:
  "closed_nodes ns \<Longrightarrow> anchored ns l cur \<Longrightarrow>
   \<exists>cur' c'. climb d ns q l cur cd = Inr (cur', c') \<and> anchored ns l cur'"
proof (induction d ns q l cur cd rule: climb.induct)
  case (1 d ns q l currObj currDist)
  from "1.prems"(2) have la: "layer_of currObj l = Inr (neighbors currObj ! l)"
    by (simp add: layer_of_def anchored_def)
  from scan_best_ok[OF "1.prems"(1) closed_layer[OF "1.prems"], of "(None, currDist)" d q]
  obtain bo c where sb: "scan_best d ns q (neighbors currObj ! l) (None, currDist) = Inr (bo, c)"
    and bo: "\<forall>b. bo = Some b \<longrightarrow> anchored ns l b" by auto
  show ?case
  proof (cases bo)
    case None
    with la sb "1.prems"(2) show ?thesis by (simp add: climb.simps)
  next
    case (Some b)
    with bo have ab: "anchored ns l b" by simp
    from "1.IH"[OF la sb[unfolded Some] refl refl "1.prems"(1) ab]
    show ?thesis using la sb Some by (subst climb.simps) simp
  qed
qed

lemma descend_ok:
  "closed_nodes ns \<Longrightarrow> anchored ns L cur \<Longrightarrow> sorted (rev ls) \<Longrightarrow> \<forall>l \<in> set ls. l \<le> L \<Longrightarrow>
   \<exists>cur' c'. descend d ns q ls (cur, cd) = Inr (cur', c') \<and>
     (\<forall>l. (\<forall>x \<in> set (L # ls). l \<le> x) \<longrightarrow> anchored ns l cur')"
proof (induction ls arbitrary: L cur cd)
  case Nil
  then show ?case by (auto intro: anchored_lower)
next
  case (Cons l1 rest)
  from Cons.prems have a1: "anchored ns l1 cur" by (auto intro: anchored_lower)
  from climb_ok[OF Cons.prems(1) a1, of d q cd] obtain cur1 c1 where
    cl: "climb d ns q l1 cur cd = Inr (cur1, c1)" and a: "anchored ns l1 cur1" by auto
  from Cons.prems(3) have s: "sorted (rev rest)" and le: "\<forall>l \<in> set rest. l \<le> l1"
    by (auto simp: sorted_append)
  from Cons.IH[OF Cons.prems(1) a s le, of c1] obtain cur' c' where
    "descend d ns q rest (cur1, c1) = Inr (cur', c')"
    and "\<forall>l. (\<forall>x \<in> set (l1 # rest). l \<le> x) \<longrightarrow> anchored ns l cur'" by auto
  with cl show ?case by auto
qed

lemma set_sort_desc: "set (sort_desc xs) = set xs"
  by (simp add: sort_desc_def)

lemma length_sort_desc: "length (sort_desc xs) = length xs"
  by (simp add: sort_desc_def)

lemma distinct_cid_sort_desc: "distinct (map cid (sort_desc xs)) = distinct (map cid xs)"
  by (simp add: sort_desc_def distinct_map)

lemma trim_subset: "set (trim ef W) \<subseteq> set W"
  by (auto simp: trim_def dest: in_set_butlastD)

lemma trim_distinct: "distinct (map cid W) \<Longrightarrow> distinct (map cid (trim ef W))"
  by (simp add: trim_def map_butlast distinct_butlast)

lemma trim_nonempty: "2 \<le> length W \<Longrightarrow> trim ef W \<noteq> []"
  by (cases W rule: rev_cases) (auto simp: trim_def)

lemma beam_ok_push:
  assumes ok: "beam_ok ns l (v, C, W)" and x: "has_layer ns l nid" and fresh: "nid \<notin> v"
  shows "beam_ok ns l (insert nid v, C @ [\<lparr>cid = nid, score = s\<rparr>],
                       trim ef (sort_desc (W @ [\<lparr>cid = nid, score = s\<rparr>])))"
proof -
  let ?e = "\<lparr>cid = nid, score = s\<rparr>"
  let ?W' = "trim ef (sort_desc (W @ [?e]))"
  from ok have C: "\<forall>c \<in> set C. has_layer ns l (cid c)" and W: "\<forall>w \<in> set W. has_layer ns l (cid w)"
    and ne: "W \<noteq> []" and sub: "cid ` set W \<subseteq> v" and dist: "distinct (map cid W)"
    by (simp_all add: beam_ok_def)
  have s1: "set ?W' \<subseteq> insert ?e (set W)"
    using trim_subset[of ef "sort_desc (W @ [?e])"] by (simp add: set_sort_desc)
  from ne have "2 \<le> length (sort_desc (W @ [?e]))"
    by (cases W) (simp_all add: length_sort_desc)
  then have ne': "?W' \<noteq> []" by (rule trim_nonempty)
  from fresh sub have "nid \<notin> cid ` set W" by auto
  with dist have "distinct (map cid (W @ [?e]))" by simp
  then have d': "distinct (map cid ?W')"
    by (simp add: trim_distinct distinct_cid_sort_desc)
  have w': "\<forall>w \<in> set ?W'. has_layer ns l (cid w)"
    using s1 W x by auto
  from s1 have "cid ` set ?W' \<subseteq> cid ` insert ?e (set W)" by (rule image_mono)
  then have "cid ` set ?W' \<subseteq> insert nid (cid ` set W)" by simp
  also have "\<dots> \<subseteq> insert nid v" using sub by (rule insert_mono)
  finally have sub': "cid ` set ?W' \<subseteq> insert nid v" .
  show ?thesis
    unfolding beam_ok_def using C x w' ne' sub' d' by simp
qed

lemma beam_ok_skip: "beam_ok ns l (v, C, W) \<Longrightarrow> beam_ok ns l (insert nid v, C, W)"
  by (auto simp: beam_ok_def)

lemma expand_ok:
  "\<forall>x \<in> set nbrs. has_layer ns l x \<Longrightarrow> beam_ok ns l st \<Longrightarrow>
   \<exists>st'. expand d ns q ef fs nbrs st = Inr st' \<and> beam_ok ns l st'"
proof (induction nbrs arbitrary: st)
  case Nil
  then show ?case by simp
next
  case (Cons nid rest)
  obtain v C W where st: "st = (v, C, W)" by (cases st)
  from Cons.prems(1) have x: "has_layer ns l nid" and rest: "\<forall>x \<in> set rest. has_layer ns l x"
    by simp_all
  from x obtain n where n: "map_of ns nid = Some n" by (auto simp: has_layer_def)
  show ?case
  proof (cases "nid \<in> v")
    case True
    with Cons.IH[OF rest Cons.prems(2)] st show ?thesis by simp
  next
    case False
    show ?thesis
    proof (cases "length W < ef \<or> d q (vector n) > fs")
      case True
      from beam_ok_push[OF Cons.prems(2)[unfolded st] x False]
      have "beam_ok ns l (insert nid v, C @ [\<lparr>cid = nid, score = d q (vector n)\<rparr>],
              trim ef (sort_desc (W @ [\<lparr>cid = nid, score = d q (vector n)\<rparr>])))" .
      from Cons.IH[OF rest this] st n False True show ?thesis by simp
    next
      case no: False
      from beam_ok_skip[OF Cons.prems(2)[unfolded st]]
      have "beam_ok ns l (insert nid v, C, W)" .
      from Cons.IH[OF rest this] st n False no show ?thesis by simp
    qed
  qed
qed

lemma search_loop_ok:
  "closed_nodes ns \<Longrightarrow> beam_ok ns l st \<Longrightarrow>
   \<exists>R. search_loop d ns q ef l st = Inr R \<and> R \<noteq> [] \<and> distinct (map cid R) \<and>
       (\<forall>w \<in> set R. has_layer ns l (cid w))"
proof (induction d ns q ef l st rule: search_loop.induct)
  case (1 d ns q ef l v C W)
  note cl = "1.prems"(1) and ok = "1.prems"(2)
  from ok have Cok: "\<forall>c \<in> set C. has_layer ns l (cid c)" and Wok: "\<forall>w \<in> set W. has_layer ns l (cid w)"
    and ne: "W \<noteq> []" and sub: "cid ` set W \<subseteq> v" and dist: "distinct (map cid W)"
    by (simp_all add: beam_ok_def)
  show ?case
  proof (cases "C = []")
    case True
    with ne dist Wok show ?thesis by (simp add: search_loop.simps)
  next
    case cne: False
    show ?thesis
    proof (cases "score (hd (sort_desc C)) < score (last (sort_desc W)) \<and> length W \<ge> ef")
      case True
      with cne ne have "search_loop d ns q ef l (v, C, W) = Inr (sort_desc W)"
        by (simp add: search_loop.simps)
      moreover have "sort_desc W \<noteq> []" using ne by (metis length_sort_desc length_0_conv)
      ultimately show ?thesis using dist Wok
        by (simp add: distinct_cid_sort_desc set_sort_desc)
    next
      case go: False
      have "sort_desc C \<noteq> []" using cne by (metis length_sort_desc length_0_conv)
      then have "hd (sort_desc C) \<in> set C" using hd_in_set[of "sort_desc C"] by (simp add: set_sort_desc)
      with Cok have "has_layer ns l (cid (hd (sort_desc C)))" by simp
      then obtain cNode where c: "map_of ns (cid (hd (sort_desc C))) = Some cNode"
        and ln: "l < length (neighbors cNode)" by (auto simp: has_layer_def)
      from ln have la: "layer_of cNode l = Inr (neighbors cNode ! l)" by (simp add: layer_of_def)
      from closed_layer[OF cl has_layer_anchored[OF cl c ln]]
      have nb: "\<forall>x \<in> set (neighbors cNode ! l). has_layer ns l x" .
      have "set (tl (sort_desc C)) \<subseteq> set C"
        using list.set_sel(2)[of "sort_desc C"] \<open>sort_desc C \<noteq> []\<close> by (auto simp: set_sort_desc)
      with Cok Wok ne sub dist have ok1: "beam_ok ns l (v, tl (sort_desc C), sort_desc W)"
        unfolding beam_ok_def
        by (auto simp: set_sort_desc distinct_cid_sort_desc length_sort_desc
            dest: arg_cong[where f = length])
      from expand_ok[OF nb ok1, of d q ef "score (last (sort_desc W))"] obtain st' where
        ex: "expand d ns q ef (score (last (sort_desc W))) (neighbors cNode ! l)
               (v, tl (sort_desc C), sort_desc W) = Inr st'" and ok': "beam_ok ns l st'" by auto
      from "1.IH"[OF cne ne go c la ex cl ok'] obtain R where
        "search_loop d ns q ef l st' = Inr R" "R \<noteq> []" "distinct (map cid R)"
        "\<forall>w \<in> set R. has_layer ns l (cid w)" by auto
      moreover have "search_loop d ns q ef l (v, C, W) = search_loop d ns q ef l st'"
        by (subst search_loop.simps) (simp only: cne ne go if_False c la ex option.case sum.case)
      ultimately show ?thesis by simp
    qed
  qed
qed

lemma searchLayer_ok:
  assumes "closed_nodes ns" and "anchored ns l entry"
  shows "\<exists>W. searchLayer d ns q entry ef l = Inr W \<and> W \<noteq> [] \<and> distinct (map cid W) \<and>
       (\<forall>w \<in> set W. has_layer ns l (cid w))"
proof -
  have "beam_ok ns l ({node_id entry}, [\<lparr>cid = node_id entry, score = d q (vector entry)\<rparr>],
                      [\<lparr>cid = node_id entry, score = d q (vector entry)\<rparr>])"
    using anchored_has_layer[OF assms(2)] by (simp add: beam_ok_def)
  from search_loop_ok[OF assms(1) this] show ?thesis by (simp add: searchLayer_def)
qed

lemma layers_down_sorted: "sorted (rev (layers_down hi lo))"
  by (simp add: layers_down_def del: upt_Suc)

lemma layers_down_le: "\<forall>l \<in> set (layers_down hi lo). l \<le> hi"
  by (auto simp: layers_down_def)

lemma layers_down_gt: "\<forall>l \<in> set (layers_down hi lo). lo < l"
  by (auto simp: layers_down_def)

lemma search_ok:
  assumes "graph_closed g"
  shows "\<exists>r. search f32 d g query k = Inr r"
proof (cases "entryPointId g")
  case None
  then show ?thesis by (simp add: search_def)
next
  case (Some ep)
  from assms have cl: "closed_nodes (nodes g)" by (simp add: graph_closed_def)
  from assms Some obtain n where n: "map_of (nodes g) ep = Some n"
    and ln: "maxLevel g < length (neighbors n)"
    by (auto simp: graph_closed_def has_layer_def)
  from has_layer_anchored[OF cl n ln] have an: "anchored (nodes g) (maxLevel g) n" .
  from descend_ok[OF cl an layers_down_sorted[of "maxLevel g" 0] layers_down_le[of "maxLevel g" 0],
      where d = d and q = "f32 query" and cd = "d (f32 query) (vector n)"]
  obtain cur c where de: "descend d (nodes g) (f32 query) (layers_down (maxLevel g) 0)
      (n, d (f32 query) (vector n)) = Inr (cur, c)"
    and a0: "anchored (nodes g) 0 cur" by auto
  from searchLayer_ok[OF cl a0, of d "f32 query" "efSearch g"] obtain W where
    "searchLayer d (nodes g) (f32 query) cur (efSearch g) 0 = Inr W" by auto
  with Some n de show ?thesis by (simp add: search_def)
qed

lemma has_layer_shape: "shape ns' = shape ns \<Longrightarrow> has_layer ns' l x = has_layer ns l x"
proof -
  assume "shape ns' = shape ns"
  then have "map_of (shape ns') x = map_of (shape ns) x" by simp
  then have "map_option (\<lambda>n. length (neighbors n)) (map_of ns' x)
           = map_option (\<lambda>n. length (neighbors n)) (map_of ns x)"
    unfolding map_of_shape by (cases "map_of ns' x"; cases "map_of ns x") auto
  then show ?thesis
    unfolding has_layer_def by (cases "map_of ns' x"; cases "map_of ns x") auto
qed

lemma closed_set_layer:
  assumes cl: "closed_nodes ns" and ids: "\<forall>x \<in> set ids. has_layer ns l x"
  shows "closed_nodes (AList.map_entry k (set_layer l ids) ns)"
proof -
  let ?ns' = "AList.map_entry k (set_layer l ids) ns"
  have hl: "has_layer ?ns' l' x = has_layer ns l' x" for l' x
    by (rule has_layer_shape) (rule shape_map_entry)
  have "node_id n' = k' \<and> (\<forall>l' < length (neighbors n'). \<forall>x \<in> set (neighbors n' ! l'). has_layer ?ns' l' x)"
    if look: "map_of ?ns' k' = Some n'" for k' n'
  proof (cases "k' = k")
    case False
    with look have "map_of ns k' = Some n'" by (simp add: map_of_map_entry)
    with cl show ?thesis unfolding hl by (auto simp: closed_nodes_def)
  next
    case True
    with look obtain n where n: "map_of ns k = Some n" and n': "n' = set_layer l ids n"
      by (auto simp: map_of_map_entry split: option.splits)
    from cl n have id: "node_id n = k"
      and old: "\<forall>l' < length (neighbors n). \<forall>x \<in> set (neighbors n ! l'). has_layer ns l' x"
      by (auto simp: closed_nodes_def)
    have "\<forall>x \<in> set (neighbors n' ! l'). has_layer ns l' x" if "l' < length (neighbors n')" for l'
      using that old ids unfolding n' set_layer_def
      by (cases "l' = l") (simp_all add: nth_list_update)
    with id True show ?thesis unfolding hl n' by (simp add: set_layer_def)
  qed
  then show ?thesis unfolding closed_nodes_def by blast
qed

lemma rescore_ok:
  "\<forall>x \<in> set ids. has_layer ns l x \<Longrightarrow> \<exists>cs. rescore d ns u ids = Inr cs \<and> map cid cs = ids"
  by (induction ids) (auto simp: has_layer_def)

lemma selectNeighbors_subset: "set (selectNeighbors cs m) \<subseteq> set cs"
  using set_take_subset[of m "sort_desc cs"] by (simp add: selectNeighbors_def set_sort_desc)

lemma link_back_ok:
  assumes cl: "closed_nodes ns" and ni: "has_layer ns l (cid ni)" and nw: "has_layer ns l newid"
  shows "\<exists>ns' t'. link_back d m newid l ni (ns, t) = Inr (ns', t') \<and> closed_nodes ns'"
proof -
  from ni obtain nb where nb: "map_of ns (cid ni) = Some nb" and ln: "l < length (neighbors nb)"
    by (auto simp: has_layer_def)
  let ?pushed = "neighbors nb ! l @ [newid]"
  let ?ns1 = "AList.map_entry (cid ni) (set_layer l ?pushed) ns"
  from closed_layer[OF cl has_layer_anchored[OF cl nb ln]] nw
  have p: "\<forall>x \<in> set ?pushed. has_layer ns l x" by simp
  from closed_set_layer[OF cl p] have cl1: "closed_nodes ?ns1" .
  have hl1: "has_layer ?ns1 l x = has_layer ns l x" for x
    by (rule has_layer_shape) (rule shape_map_entry)
  show ?thesis
  proof (cases "length ?pushed > m")
    case False
    with nb ln cl1 show ?thesis by (simp add: link_back_def Let_def)
  next
    case True
    from p have p1: "\<forall>x \<in> set ?pushed. has_layer ?ns1 l x" by (simp add: hl1)
    from rescore_ok[OF p1, of d "vector nb"] obtain cs where
      rs: "rescore d ?ns1 (vector nb) ?pushed = Inr cs" and cs: "map cid cs = ?pushed" by auto
    have "set (map cid (selectNeighbors cs m)) \<subseteq> set (map cid cs)"
      using selectNeighbors_subset[of cs m] by auto
    with p1 cs have "\<forall>x \<in> set (map cid (selectNeighbors cs m)). has_layer ?ns1 l x" by auto
    from closed_set_layer[OF cl1 this]
    have "closed_nodes (AList.map_entry (cid ni) (set_layer l (map cid (selectNeighbors cs m))) ?ns1)" .
    with nb ln True rs show ?thesis by (simp add: link_back_def Let_def)
  qed
qed

lemma link_all_ok:
  "closed_nodes ns \<Longrightarrow> \<forall>ni \<in> set nis. has_layer ns l (cid ni) \<Longrightarrow> has_layer ns l newid \<Longrightarrow>
   \<exists>ns' t'. link_all d m newid l nis (ns, t) = Inr (ns', t') \<and> closed_nodes ns' \<and> shape ns' = shape ns"
proof (induction nis arbitrary: ns t)
  case Nil
  then show ?case by simp
next
  case (Cons ni rest)
  from Cons.prems(2) have ni: "has_layer ns l (cid ni)" by simp
  from link_back_ok[OF Cons.prems(1) ni Cons.prems(3), of d m t] obtain ns1 t1 where
    lb: "link_back d m newid l ni (ns, t) = Inr (ns1, t1)" and cl1: "closed_nodes ns1" by auto
  from link_back_shape[OF lb] have sh: "shape ns1 = shape ns" .
  have r: "\<forall>ni \<in> set rest. has_layer ns1 l (cid ni)"
    using Cons.prems(2) by (simp add: has_layer_shape[OF sh])
  have nw: "has_layer ns1 l newid"
    using Cons.prems(3) by (simp add: has_layer_shape[OF sh])
  from Cons.IH[OF cl1 r nw, of t1] lb sh show ?case by auto
qed

lemma connect_layer_ok:
  assumes cl: "closed_nodes ns" and an: "anchored ns l cur" and nw: "has_layer ns l newid"
  shows "\<exists>ns' t' cur'. connect_layer d m efc newid q l (ns, t, Some cur) = Inr (ns', t', Some cur') \<and>
           closed_nodes ns' \<and> shape ns' = shape ns \<and> anchored ns' l cur'"
proof -
  from searchLayer_ok[OF cl an, of d q efc] obtain W where
    sl: "searchLayer d ns q cur efc l = Inr W" and ne: "W \<noteq> []"
    and Wok: "\<forall>w \<in> set W. has_layer ns l (cid w)" by auto
  let ?sel = "selectNeighbors W m"
  let ?ns1 = "AList.map_entry newid (set_layer l (map cid ?sel)) ns"
  have sel: "\<forall>w \<in> set ?sel. has_layer ns l (cid w)"
    using selectNeighbors_subset[of W m] Wok by auto
  then have ids: "\<forall>x \<in> set (map cid ?sel). has_layer ns l x" by simp
  from closed_set_layer[OF cl ids] have cl1: "closed_nodes ?ns1" .
  have sh1: "shape ?ns1 = shape ns" by (rule shape_map_entry)
  from link_all_ok[OF cl1, of ?sel l newid d m t] sel nw obtain ns' t' where
    la: "link_all d m newid l ?sel (?ns1, t) = Inr (ns', t')" and cl': "closed_nodes ns'"
    and sh': "shape ns' = shape ?ns1"
    by (auto simp: has_layer_shape[OF sh1])
  from sh' sh1 have sh: "shape ns' = shape ns" by simp
  have sne: "sort_desc W \<noteq> []" using ne by (metis length_sort_desc length_0_conv)
  then have "hd (sort_desc W) \<in> set W" using hd_in_set[of "sort_desc W"] by (simp add: set_sort_desc)
  with Wok have "has_layer ns' l (cid (hd (sort_desc W)))" by (simp add: has_layer_shape[OF sh])
  then obtain n where n: "map_of ns' (cid (hd (sort_desc W))) = Some n" and ln: "l < length (neighbors n)"
    by (auto simp: has_layer_def)
  from has_layer_anchored[OF cl' n ln] have "anchored ns' l n" .
  with sl la sne n cl' sh show ?thesis by (simp add: connect_layer_def)
qed

lemma connect_ok:
  "closed_nodes ns \<Longrightarrow> anchored ns L cur \<Longrightarrow> has_layer ns L newid \<Longrightarrow>
   sorted (rev ls) \<Longrightarrow> \<forall>l \<in> set ls. l \<le> L \<Longrightarrow>
   \<exists>ns' t' cur'. connect d m efc newid q ls (ns, t, Some cur) = Inr (ns', t', cur') \<and>
      closed_nodes ns' \<and> shape ns' = shape ns"
proof (induction ls arbitrary: ns t cur L)
  case Nil
  then show ?case by simp
next
  case (Cons l rest)
  from Cons.prems have le: "l \<le> L" by simp
  from anchored_lower[OF Cons.prems(2) le] have an: "anchored ns l cur" .
  from Cons.prems(3) le have nw: "has_layer ns l newid" by (auto simp: has_layer_def)
  from connect_layer_ok[OF Cons.prems(1) an nw, of d m efc q t] obtain ns1 t1 cur1 where
    c1: "connect_layer d m efc newid q l (ns, t, Some cur) = Inr (ns1, t1, Some cur1)"
    and cl1: "closed_nodes ns1" and sh1: "shape ns1 = shape ns" and an1: "anchored ns1 l cur1"
    by auto
  from nw have nw1: "has_layer ns1 l newid" by (simp add: has_layer_shape[OF sh1])
  from Cons.prems(4) have s: "sorted (rev rest)" and le': "\<forall>x \<in> set rest. x \<le> l"
    by (auto simp: sorted_append)
  from Cons.IH[OF cl1 an1 nw1 s le', of t1] c1 sh1 show ?case by auto
qed

lemma layers_to_zero_sorted: "sorted (rev (layers_to_zero hi))"
  by (simp add: layers_to_zero_def del: upt_Suc)

lemma layers_to_zero_le: "\<forall>l \<in> set (layers_to_zero hi). l \<le> hi"
  by (auto simp: layers_to_zero_def)

lemma closed_nodes_append:
  assumes cl: "closed_nodes ns" and fresh: "map_of ns newid = None"
  shows "closed_nodes (ns @ [(newid, new_node newid v lvl)])"
    and "has_layer ns l x \<Longrightarrow> has_layer (ns @ [(newid, new_node newid v lvl)]) l x"
    and "l \<le> lvl \<Longrightarrow> has_layer (ns @ [(newid, new_node newid v lvl)]) l newid"
proof -
  let ?ns0 = "ns @ [(newid, new_node newid v lvl)]"
  have look: "map_of ?ns0 k = (case map_of ns k of Some n \<Rightarrow> Some n
                | None \<Rightarrow> if k = newid then Some (new_node newid v lvl) else None)" for k
    by (simp add: map_add_def split: option.splits)
  show up: "has_layer ns l x \<Longrightarrow> has_layer ?ns0 l x" for l x
    unfolding has_layer_def look by auto
  show "l \<le> lvl \<Longrightarrow> has_layer ?ns0 l newid"
    unfolding has_layer_def look using fresh by (simp add: new_node_def)
  have "node_id n = k \<and> (\<forall>l < length (neighbors n). \<forall>x \<in> set (neighbors n ! l). has_layer ?ns0 l x)"
    if "map_of ?ns0 k = Some n" for k n
  proof (cases "map_of ns k")
    case (Some n')
    with that have "n' = n" unfolding look by simp
    with Some cl show ?thesis by (auto simp: closed_nodes_def intro: up)
  next
    case None
    with that have k: "k = newid" and n: "n = new_node newid v lvl"
      unfolding look by (auto split: if_splits)
    have "neighbors n ! l = []" if "l < length (neighbors n)" for l
      using that unfolding n new_node_def by (simp del: replicate_Suc)
    with k n show ?thesis by (simp add: new_node_def del: replicate_Suc)
  qed
  then show "closed_nodes ?ns0" unfolding closed_nodes_def by blast
qed

lemma addPoint_ok:
  assumes gc: "graph_closed g" and fresh: "map_of (nodes g) newid = None"
  shows "\<exists>g' t. addPoint f32 d rnd g newid vec = Inr (g', t) \<and> graph_closed g'"
proof -
  define lvl where "lvl = getRandomLevel (levelMultiplier g) rnd"
  define ns0 where "ns0 = nodes g @ [(newid, new_node newid (f32 vec) lvl)]"
  from gc have cl: "closed_nodes (nodes g)" by (simp add: graph_closed_def)
  have u: "AList.update newid (new_node newid (f32 vec) lvl) (nodes g) = ns0"
    unfolding ns0_def by (rule update_absent[OF fresh])
  note ap = closed_nodes_append[OF cl fresh, where v = "f32 vec" and lvl = lvl, folded ns0_def]
  show ?thesis
  proof (cases "entryPointId g")
    case None
    have "addPoint f32 d rnd g newid vec =
            Inr (g\<lparr> nodes := ns0, entryPointId := Some newid, maxLevel := lvl \<rparr>, {newid})"
      using fresh None u by (simp add: addPoint_def Let_def lvl_def)
    moreover have "graph_closed (g\<lparr> nodes := ns0, entryPointId := Some newid, maxLevel := lvl \<rparr>)"
      using ap(1) ap(3)[of lvl] by (simp add: graph_closed_def)
    ultimately show ?thesis by blast
  next
    case (Some ep)
    with gc have "has_layer (nodes g) (maxLevel g) ep" by (simp add: graph_closed_def)
    from ap(2)[OF this] have hep: "has_layer ns0 (maxLevel g) ep" .
    then obtain n where n: "map_of ns0 ep = Some n" and ln: "maxLevel g < length (neighbors n)"
      by (auto simp: has_layer_def)
    from has_layer_anchored[OF ap(1) n ln] have an: "anchored ns0 (maxLevel g) n" .
    let ?l0 = "min lvl (maxLevel g)"
    from descend_ok[OF ap(1) an layers_down_sorted[of "maxLevel g" lvl] layers_down_le[of "maxLevel g" lvl],
        where d = d and q = "f32 vec" and cd = "d (f32 vec) (vector n)"]
    obtain cur c where de: "descend d ns0 (f32 vec) (layers_down (maxLevel g) lvl)
        (n, d (f32 vec) (vector n)) = Inr (cur, c)"
      and al: "\<forall>l. (\<forall>x \<in> set (maxLevel g # layers_down (maxLevel g) lvl). l \<le> x) \<longrightarrow> anchored ns0 l cur"
      by auto
    have "\<forall>x \<in> set (maxLevel g # layers_down (maxLevel g) lvl). ?l0 \<le> x"
      using layers_down_gt[of "maxLevel g" lvl] by auto
    with al have a0: "anchored ns0 ?l0 cur" by blast
    have nw: "has_layer ns0 ?l0 newid" by (rule ap(3)) simp
    from connect_ok[OF ap(1) a0 nw layers_to_zero_sorted[of ?l0] layers_to_zero_le[of ?l0],
        of d "M g" "efConstruction g" "f32 vec" "{newid}"]
    obtain ns' t' cur' where co: "connect d (M g) (efConstruction g) newid (f32 vec)
        (layers_to_zero ?l0) (ns0, {newid}, Some cur) = Inr (ns', t', cur')"
      and cl': "closed_nodes ns'" and sh: "shape ns' = shape ns0" by auto
    let ?g' = "if lvl > maxLevel g
               then g\<lparr> nodes := ns', maxLevel := lvl, entryPointId := Some newid \<rparr>
               else g\<lparr> nodes := ns' \<rparr>"
    have "addPoint f32 d rnd g newid vec = Inr (?g', t')"
      using fresh Some u n de co by (simp add: addPoint_def Let_def lvl_def)
    moreover have "graph_closed ?g'"
    proof (cases "lvl > maxLevel g")
      case True
      have "has_layer ns' lvl newid"
        unfolding has_layer_shape[OF sh] by (rule ap(3)) simp
      with True cl' show ?thesis by (simp add: graph_closed_def)
    next
      case False
      have "has_layer ns' (maxLevel g) ep"
        unfolding has_layer_shape[OF sh] by (rule hep)
      with False cl' Some show ?thesis by (simp add: graph_closed_def)
    qed
    ultimately show ?thesis by blast
  qed
qed

lemma new_index_closed: "graph_closed (new_index config)"
  by (simp add: graph_closed_def closed_nodes_def new_index_def Let_def)

lemma addPoint_closed:
  assumes "graph_closed g" and "addPoint f32 d rnd g newid vec = Inr (g', t)"
  shows "graph_closed g'"
  using addPoint_ok[OF assms(1) addPoint_success(1)[OF assms(2)], of f32 d rnd vec] assms(2)
  by auto

lemma reachable_closed: "reachable f32 d g \<Longrightarrow> graph_closed g"
  by (induction rule: reachable.induct) (auto intro: new_index_closed addPoint_closed)

subsection \<open>Dangling ids\<close>

lemma ghost_index_eq:
  "ghost_index = \<lparr> nodes = [(''a'', \<lparr> node_id = ''a'', vector = [1, 0], level = 0, neighbors = [[''b'']] \<rparr>)],
                   entryPointId = Some ''a'', M = 1, efConstruction = 200, efSearch = 200,
                   levelMultiplier = Fin (1 / 2), maxLevel = 0 \<rparr>"
  by (simp add: ghost_index_def ghost_json_def fromJSON_def new_index_def or_default_def
      or_default_num_def node_of_json_def keep_def)

lemma ghost_index_top_eq:
  "ghost_index_top = \<lparr> nodes = [(''a'', \<lparr> node_id = ''a'', vector = [1, 0], level = 1,
                                          neighbors = [[], [''b'']] \<rparr>)],
                   entryPointId = Some ''a'', M = 1, efConstruction = 200, efSearch = 200,
                   levelMultiplier = Fin (1 / 2), maxLevel = 1 \<rparr>"
  by (simp add: ghost_index_top_def ghost_json_top_def fromJSON_def new_index_def or_default_def
      or_default_num_def node_of_json_def keep_def)

lemma scan_best_dangling:
  "x \<in> set ids \<Longrightarrow> map_of ns x = None \<Longrightarrow> scan_best d ns q ids acc = Inl TypeError"
proof (induction ids arbitrary: acc)
  case Nil
  then show ?case by simp
next
  case (Cons nid rest)
  obtain b0 c0 where acc: "acc = (b0, c0)" by (cases acc)
  show ?case
  proof (cases "map_of ns nid")
    case None
    then show ?thesis by (simp add: acc)
  next
    case (Some n)
    with Cons.prems have "x \<in> set rest" by auto
    from Cons.IH[OF this Cons.prems(2)] Some show ?thesis by (simp add: acc)
  qed
qed

lemma expand_dangling:
  "x \<in> set nbrs \<Longrightarrow> x \<notin> v \<Longrightarrow> map_of ns x = None \<Longrightarrow>
   expand d ns q ef fs nbrs (v, C, W) = Inl TypeError"
proof (induction nbrs arbitrary: v C W)
  case Nil
  then show ?case by simp
next
  case (Cons nid rest)
  show ?case
  proof (cases "nid \<in> v")
    case True
    with Cons.prems have "x \<in> set rest" by auto
    from Cons.IH[OF this Cons.prems(2,3)] True show ?thesis by simp
  next
    case False
    show ?thesis
    proof (cases "map_of ns nid")
      case None
      with False show ?thesis by simp
    next
      case (Some n)
      with Cons.prems have xr: "x \<in> set rest" and "x \<noteq> nid" by auto
      with Cons.prems(2) have "x \<notin> insert nid v" by simp
      from Cons.IH[OF xr this Cons.prems(3)] Some False show ?thesis by simp
    qed
  qed
qed

text \<open>
  C1 as stated fails.  In the index loaded from a store that lost node \<open>b\<close>, the dangling id
  \<open>b\<close> is not skipped: \<open>search\<close> and \<open>searchLayer\<close> raise a TypeError on layer 0, and with
  the dangling id on layer 1 so do the hill-climbs of \<open>search\<close> and of \<open>addPoint\<close>.
\<close>

theorem dangling_id_counterexample:
  "map_of (nodes ghost_index) ''b'' = None \<and>
   map_option neighbors (map_of (nodes ghost_index) ''a'') = Some [[''b'']] \<and>
   search keep cosine ghost_index [1, 0] 1 = Inl TypeError \<and>
   searchLayer cosine (nodes ghost_index) [1, 0]
     \<lparr> node_id = ''a'', vector = [1, 0], level = 0, neighbors = [[''b'']] \<rparr> 200 0 = Inl TypeError \<and>
   search keep cosine ghost_index_top [1, 0] 1 = Inl TypeError \<and>
   addPoint keep cosine draws ghost_index_top ''c'' [0, 1] =
     Inl (TypeError, ghost_index_top\<lparr> nodes := nodes ghost_index_top @ [(''c'', new_node ''c'' [0, 1] 0)] \<rparr>)"
  by (simp add: eval_defs ghost_index_eq ghost_index_top_eq search_def climb.simps)

text \<open>
  C1 as amended.  On an index without dangling ids (every state reachable from a new index
  by successful \<open>addPoint\<close> calls is one) \<open>search\<close> returns, \<open>searchLayer\<close> returns from every
  entry node stored with the layer searched, and \<open>addPoint\<close> of an id not yet stored returns
  and leaves an index without dangling ids.  A dangling id is not skipped: the scan of the
  hill-climb over a list that holds one, and the expansion in \<open>searchLayer\<close> of a list that
  holds an unvisited one, raise a TypeError.
\<close>

theorem no_dangling_no_error:
  "graph_closed g \<Longrightarrow>
     (\<exists>r. search f32 d g query k = Inr r) \<and>
     (\<forall>entry ef l. anchored (nodes g) l entry \<longrightarrow>
        (\<exists>W. searchLayer d (nodes g) q entry ef l = Inr W)) \<and>
     (newid \<notin> fst ` set (nodes g) \<longrightarrow>
        (\<exists>g' t. addPoint f32 d rnd g newid vec = Inr (g', t) \<and> graph_closed g')) \<and>
     (\<forall>ns ids acc x. x \<in> set ids \<and> map_of ns x = None \<longrightarrow>
        scan_best d ns q ids acc = Inl TypeError) \<and>
     (\<forall>ns ef fs nbrs v C W x. x \<in> set nbrs \<and> x \<notin> v \<and> map_of ns x = None \<longrightarrow>
        expand d ns q ef fs nbrs (v, C, W) = Inl TypeError)"
proof -
  assume gc: "graph_closed g"
  then have cl: "closed_nodes (nodes g)" by (simp add: graph_closed_def)
  have 1: "\<exists>r. search f32 d g query k = Inr r" by (rule search_ok[OF gc])
  have 2: "\<exists>W. searchLayer d (nodes g) q entry ef l = Inr W" if "anchored (nodes g) l entry"
    for entry ef l
    using searchLayer_ok[OF cl that, of d q ef] by blast
  have 3: "\<exists>g' t. addPoint f32 d rnd g newid vec = Inr (g', t) \<and> graph_closed g'"
    if "newid \<notin> fst ` set (nodes g)"
  proof -
    from that have "map_of (nodes g) newid = None" by (simp add: map_of_eq_None_iff)
    from addPoint_ok[OF gc this] show ?thesis .
  qed
  have 4: "scan_best d ns q ids acc = Inl TypeError"
    if "x \<in> set ids \<and> map_of ns x = None" for ns ids acc x
    using scan_best_dangling[of x ids ns d q acc] that by simp
  have 5: "expand d ns q ef fs nbrs (v, C, W) = Inl TypeError"
    if "x \<in> set nbrs \<and> x \<notin> v \<and> map_of ns x = None"
    for ns ef fs nbrs v C W x
    using expand_dangling[of x nbrs v ns d q ef fs C W] that by simp
  show ?thesis
  proof (intro conjI allI impI)
    show "\<exists>r. search f32 d g query k = Inr r" by (rule 1)
    show "\<exists>W. searchLayer d (nodes g) q entry ef l = Inr W" if "anchored (nodes g) l entry"
      for entry ef l using that by (rule 2)
    show "\<exists>g' t. addPoint f32 d rnd g newid vec = Inr (g', t) \<and> graph_closed g'"
      if "newid \<notin> fst ` set (nodes g)" using that by (rule 3)
    show "scan_best d ns q ids acc = Inl TypeError"
      if "x \<in> set ids \<and> map_of ns x = None" for ns ids acc x
      using that by (rule 4)
    show "expand d ns q ef fs nbrs (v, C, W) = Inl TypeError"
      if "x \<in> set nbrs \<and> x \<notin> v \<and> map_of ns x = None"
      for ns ef fs nbrs v C W x
      using that by (rule 5)
  qed
qed

theorem no_dangling_no_error_witness:
  "graph_closed index3 \<and>
   search keep cosine index3 [0, 1] 3 = Inr [\<lparr>cid = ''a'', score = 0\<rparr>, \<lparr>cid = ''b'', score = 0\<rparr>] \<and>
   ''c'' \<notin> fst ` set (nodes index2) \<and>
   addPoint keep cosine draws index2 ''c'' [0, 1] = Inr (index3, {''a'', ''c''}) \<and>
   ''b'' \<in> set [''b''] \<and> map_of (nodes ghost_index) ''b'' = None \<and>
   scan_best cosine (nodes ghost_index) [1, 0] [''b''] (None, 0) = Inl TypeError"
proof -
  have gc: "graph_closed index3" by (rule reachable_closed[OF reachable_index3])
  from no_dangling_no_error[OF gc, of keep cosine "[0, 1]" 3 "[1, 0]" "''d''" draws "[0, 1]"]
    gc search_index3 addPoint_index2
  show ?thesis by (simp add: index2_def ghost_index_eq)
qed

subsection \<open>Reach of the search\<close>



















subsection \<open>Search results\<close>


















































subsection \<open>Stopping and restarting a migration\<close>

lemma addPoint_keys:
  assumes "addPoint f32 d rnd g newid vec = Inr (g', t)"
  shows "fst ` set (nodes g') = insert newid (fst ` set (nodes g))"
proof -
  from addPoint_success(2)[OF assms]
  have "map fst (shape (nodes g')) = map fst (shape (nodes g)) @ [newid]" by simp
  then have "map fst (nodes g') = map fst (nodes g) @ [newid]" by (simp add: shape_keys)
  then have "set (map fst (nodes g')) = set (map fst (nodes g) @ [newid])" by simp
  then show ?thesis by auto
qed

lemma add_all_ok:
  "graph_closed g \<Longrightarrow> distinct (map doc_id docs) \<Longrightarrow>
   doc_id ` set docs \<inter> fst ` set (nodes g) = {} \<Longrightarrow>
   \<exists>g' t. add_all f32 d rnds j docs (g, acc) = Inr (g', t) \<and> graph_closed g' \<and>
      fst ` set (nodes g') \<subseteq> fst ` set (nodes g) \<union> doc_id ` set docs"
proof (induction docs arbitrary: g acc j)
  case Nil
  then show ?case by simp
next
  case (Cons doc rest)
  from Cons.prems have dr: "distinct (map doc_id rest)" and nr: "doc_id doc \<notin> doc_id ` set rest"
    and fresh: "doc_id doc \<notin> fst ` set (nodes g)"
    and disj: "doc_id ` set rest \<inter> fst ` set (nodes g) = {}" by auto
  show ?case
  proof (cases "doc_embedding doc")
    case None
    from Cons.IH[OF Cons.prems(1) dr disj, of "Suc j" acc] obtain g' t where
      r: "add_all f32 d rnds (Suc j) rest (g, acc) = Inr (g', t)" "graph_closed g'"
      and sub: "fst ` set (nodes g') \<subseteq> fst ` set (nodes g) \<union> doc_id ` set rest" by auto
    from sub have "fst ` set (nodes g') \<subseteq> fst ` set (nodes g) \<union> doc_id ` set (doc # rest)"
      by auto
    with r None show ?thesis by simp
  next
    case (Some e)
    from fresh have "map_of (nodes g) (doc_id doc) = None" by (simp add: map_of_eq_None_iff)
    from addPoint_ok[OF Cons.prems(1) this, of f32 d "rnds j" e] obtain g1 t1 where
      ap: "addPoint f32 d (rnds j) g (doc_id doc) e = Inr (g1, t1)" and gc1: "graph_closed g1" by auto
    from addPoint_keys[OF ap] have k1: "fst ` set (nodes g1) = insert (doc_id doc) (fst ` set (nodes g))" .
    with nr disj have disj1: "doc_id ` set rest \<inter> fst ` set (nodes g1) = {}" by auto
    from Cons.IH[OF gc1 dr disj1, of "Suc j" "acc \<union> t1"] obtain g' t where
      r: "add_all f32 d rnds (Suc j) rest (g1, acc \<union> t1) = Inr (g', t)" "graph_closed g'"
      and sub: "fst ` set (nodes g') \<subseteq> fst ` set (nodes g1) \<union> doc_id ` set rest" by auto
    from sub k1 have "fst ` set (nodes g') \<subseteq> fst ` set (nodes g) \<union> doc_id ` set (doc # rest)"
      by auto
    with r Some ap show ?thesis by simp
  qed
qed

lemma indexDocuments_ok:
  assumes gc: "graph_closed (vt_index vt)" and ini: "initialized vt \<or> meta vt = None"
    and dist: "distinct (map doc_id docs)"
    and disj: "doc_id ` set docs \<inter> fst ` set (nodes (vt_index vt)) = {}"
  shows "\<exists>vt'. indexDocuments f32 arr d rnds vt docs = (None, vt') \<and> graph_closed (vt_index vt') \<and>
           initialized vt' \<and>
           fst ` set (nodes (vt_index vt')) \<subseteq> fst ` set (nodes (vt_index vt)) \<union> doc_id ` set docs"
proof -
  from ini have i: "vt_index (init f32 vt) = vt_index vt" and i2: "initialized (init f32 vt)"
    by (auto simp: init_def)
  from add_all_ok[OF gc dist disj, of f32 d rnds 0 "{}"] obtain g' t where
    "add_all f32 d rnds 0 docs (vt_index vt, {}) = Inr (g', t)" "graph_closed g'"
    "fst ` set (nodes g') \<subseteq> fst ` set (nodes (vt_index vt)) \<union> doc_id ` set docs" by auto
  with i i2 show ?thesis by (simp add: indexDocuments_def saveIndex_def)
qed

lemma run_batches_ok:
  "\<forall>texts. \<exists>es. emb texts = Inr es \<Longrightarrow> 0 < batchSize \<Longrightarrow> distinct (map doc_id allDocs) \<Longrightarrow>
   graph_closed (vt_index vt) \<Longrightarrow> initialized vt \<or> meta vt = None \<Longrightarrow>
   fst ` set (nodes (vt_index vt)) \<subseteq> doc_id ` set (take i allDocs) \<Longrightarrow>
   fst (run_batches f32 arr d emb rnds stops batchSize allDocs i pc iter (mgr, vt, batches)) = None"
proof (induction f32 arr d emb rnds stops batchSize allDocs i pc iter "(mgr, vt, batches)"
    arbitrary: mgr vt batches rule: run_batches.induct)
  case (1 f32 arr d embedBatch rnds stops batchSize allDocs i processedCount iter mgr vt batches)
  let ?batch = "take batchSize (drop i allDocs)"
  show ?case
  proof (cases "\<not> i < length allDocs \<or> shouldStop mgr")
    case True
    then show ?thesis by (cases "i < length allDocs") (simp_all add: run_batches.simps)
  next
    case False
    then have lt: "i < length allDocs" and go: "\<not> shouldStop mgr" by simp_all
    from "1.prems"(1) obtain es where em: "embedBatch (map doc_text ?batch) = Inr es" by blast
    from lt "1.prems"(2) have ne: "?batch \<noteq> []" by simp
    have "distinct (map doc_id (take i allDocs @ drop i allDocs))" using "1.prems"(3) by simp
    then have d2: "distinct (map doc_id (drop i allDocs))"
      and dj: "doc_id ` set (take i allDocs) \<inter> doc_id ` set (drop i allDocs) = {}"
      unfolding map_append distinct_append by auto
    from d2 have db: "distinct (map doc_id ?batch)"
      by (simp add: take_map[symmetric] distinct_take)
    have "doc_id ` set ?batch \<subseteq> doc_id ` set (drop i allDocs)"
      using set_take_subset[of batchSize "drop i allDocs"] by blast
    with dj "1.prems"(6) have bj: "doc_id ` set ?batch \<inter> fst ` set (nodes (vt_index vt)) = {}"
      by blast
    have du: "distinct (map doc_id (updateDocs ?batch es))" using db by (simp add: updateDocs_ids)
    have "doc_id ` set (updateDocs ?batch es) = doc_id ` set ?batch"
      using arg_cong[OF updateDocs_ids[of ?batch es], of set] by simp
    with bj have uj: "doc_id ` set (updateDocs ?batch es) \<inter> fst ` set (nodes (vt_index vt)) = {}"
      by simp
    from indexDocuments_ok[OF "1.prems"(4,5) du uj, of f32 arr d "rnds iter"] obtain y where
      ix: "indexDocuments f32 arr d (rnds iter) vt (updateDocs ?batch es) = (None, y)"
      and gy: "graph_closed (vt_index y)" and iy: "initialized y"
      and ky: "fst ` set (nodes (vt_index y)) \<subseteq>
                 fst ` set (nodes (vt_index vt)) \<union> doc_id ` set (updateDocs ?batch es)" by blast
    have "take (i + batchSize) allDocs = take i allDocs @ ?batch" by (simp add: take_add)
    then have "doc_id ` set (take (i + batchSize) allDocs)
               = doc_id ` set (take i allDocs) \<union> doc_id ` set ?batch" by auto
    with ky "1.prems"(6) \<open>doc_id ` set (updateDocs ?batch es) = doc_id ` set ?batch\<close>
    have ky': "fst ` set (nodes (vt_index y)) \<subseteq> doc_id ` set (take (i + batchSize) allDocs)"
      by blast
    have lt': "\<not> \<not> i < length allDocs" using lt by simp
    from iy have iy': "initialized y \<or> meta y = None" by simp
    note ih = "1.hyps"[OF lt' go em ix[symmetric] refl ne "1.prems"(1,2,3) gy iy' ky']
    show ?thesis
      using lt go em ix ne ih by (subst run_batches.simps) simp
  qed
qed

lemma start_ok:
  assumes idle: "\<not> isRunning mgr" and emb: "\<forall>texts. \<exists>es. emb texts = Inr es"
    and b: "0 < batchSize" and k: "docs_keyed (documents vt)"
  shows "fst (start f32 arr d emb rnds stops batchSize (mgr, vt)) = None"
proof -
  let ?all = "getAllDocuments vt"
  let ?mgr0 = "signal (stops 0)
                 (mgr\<lparr> isRunning := True, shouldStop := False,
                       status := (status mgr)\<lparr> st_total := length ?all \<rparr> \<rparr>)"
  have "map doc_id ?all = sort (map fst (documents vt))"
    using getAll_ids[OF k] by (simp add: getAllDocuments_def)
  moreover from k have "distinct (map fst (documents vt))" by (simp add: docs_keyed_def)
  ultimately have dist: "distinct (map doc_id ?all)" by simp
  have gc: "graph_closed (vt_index (resetIndex vt))"
    by (simp add: resetIndex_def new_index_closed)
  have ini: "initialized (resetIndex vt) \<or> meta (resetIndex vt) = None"
    by (simp add: resetIndex_def)
  have keys: "fst ` set (nodes (vt_index (resetIndex vt))) \<subseteq> doc_id ` set (take 0 ?all)"
    by (simp add: resetIndex_def new_index_def Let_def)
  from run_batches_ok[OF emb b dist gc ini keys, of f32 arr d rnds stops 0 0 ?mgr0 "[]"]
  have "fst (run_batches f32 arr d emb rnds stops batchSize ?all 0 0 0 (?mgr0, resetIndex vt, [])) = None" .
  with idle show ?thesis
    by (auto simp: start_def split: prod.splits option.splits)
qed

text \<open>
  C7 as stated fails on a manager that is used again.  \<open>manager2\<close> has completed a run over
  the two documents of \<open>indexer2\<close>.  A further \<open>start(1)\<close> with \<open>stop\<close> called before the
  loop resets the index and processes no batch, and the status still shows two processed
  documents and a complete migration: \<open>start\<close> assigns \<open>processed\<close> only after a batch and
  never assigns \<open>false\<close> to \<open>isComplete\<close>.
\<close>

theorem stale_status_counterexample:
  "\<not> isRunning manager2 \<and> docs_keyed (documents indexer2) \<and>
   length (getAllDocuments indexer2) = 2 \<and> stop_before_loop 0 \<and>
   start keep keep cosine embedder0 draws3 stop_before_loop 1 (manager2, indexer2) =
     (None, stop manager2, resetIndex indexer2, []) \<and>
   nodes (vt_index (resetIndex indexer2)) = [] \<and>
   length (concat ([] :: (real list, unit) VectorDocument list list)) = 0 \<and>
   st_processed (status (stop manager2)) = 2 \<and>
   st_isComplete (status (stop manager2))"
  by (simp add: migration_eval indexer2_def manager2_def stop_before_loop_def docs_keyed_def)

text \<open>
  C7 as amended.  A run of \<open>start\<close> on an idle manager over a keyed document store, with
  \<open>stop\<close> called as the schedule \<open>stops\<close> says.  When \<open>stop\<close> is called before the loop, no
  batch is processed; when it is called during round \<open>r\<close>, no batch after that of round \<open>r\<close>
  is processed.  \<open>status.processed\<close> ends as the number of documents in the batches the run
  has processed once it has processed a batch, and as it was at the call of \<open>start\<close> when it
  has processed none: on a manager whose \<open>processed\<close> was 0, as a new one, it is the number
  of documents processed in every case.  When \<open>stop\<close> was called during a part of the run
  that was executed, the run does not assign \<open>isComplete\<close>, which keeps its value: \<open>false\<close>
  on a manager that had not completed a run.  The store keeps every document id, and a
  subsequent \<open>start\<close> (any batch size above 0, an embedder that answers, no further \<open>stop\<close>)
  returns without error, having processed every stored document in the order of the store
  from its first document, with \<open>isComplete\<close> set and \<open>processed\<close> the number of documents.
\<close>

theorem migration_stop:
  "\<not> isRunning mgr \<Longrightarrow> docs_keyed (documents vt) \<Longrightarrow>
   start f32 arr d emb rnds stops batchSize (mgr, vt) = (res, mgr1, vt1, batches) \<Longrightarrow>
     (\<forall>j. stops j \<longrightarrow> length batches \<le> j) \<and>
     st_processed (status mgr1) =
       (if batches = [] then st_processed (status mgr) else length (concat batches)) \<and>
     (st_processed (status mgr) = 0 \<longrightarrow> st_processed (status mgr1) = length (concat batches)) \<and>
     ((\<exists>j \<le> length batches. stops j) \<longrightarrow>
        st_isComplete (status mgr1) = st_isComplete (status mgr)) \<and>
     ((\<exists>j \<le> length batches. stops j) \<and> \<not> st_isComplete (status mgr) \<longrightarrow>
        \<not> st_isComplete (status mgr1)) \<and>
     map doc_id (getAllDocuments vt1) = map doc_id (getAllDocuments vt) \<and>
     (\<forall>emb2 rnds2 batchSize2.
        (\<forall>texts. \<exists>es. emb2 texts = Inr es) \<and> 0 < batchSize2 \<longrightarrow>
          (\<exists>mgr2 vt2 batches2.
             start f32 arr d emb2 rnds2 (\<lambda>j. False) batchSize2 (mgr1, vt1) = (None, mgr2, vt2, batches2) \<and>
             map doc_id (concat batches2) = map doc_id (getAllDocuments vt) \<and>
             st_isComplete (status mgr2) \<and>
             st_total (status mgr2) = length (getAllDocuments vt) \<and>
             (getAllDocuments vt \<noteq> [] \<longrightarrow>
                st_processed (status mgr2) = length (getAllDocuments vt))))"
proof -
  assume idle: "\<not> isRunning mgr" and k: "docs_keyed (documents vt)"
    and run: "start f32 arr d emb rnds stops batchSize (mgr, vt) = (res, mgr1, vt1, batches)"
  note p = start_post[OF idle run]
  from p(7) k have k1: "docs_keyed (documents vt1)"
    and same: "map doc_id (getAllDocuments vt1) = map doc_id (getAllDocuments vt)" by simp_all
  from same have len: "length (getAllDocuments vt1) = length (getAllDocuments vt)"
    by (metis length_map)
  have again: "\<exists>mgr2 vt2 batches2.
             start f32 arr d emb2 rnds2 (\<lambda>j. False) batchSize2 (mgr1, vt1) = (None, mgr2, vt2, batches2) \<and>
             map doc_id (concat batches2) = map doc_id (getAllDocuments vt) \<and>
             st_isComplete (status mgr2) \<and>
             st_total (status mgr2) = length (getAllDocuments vt) \<and>
             (getAllDocuments vt \<noteq> [] \<longrightarrow>
                st_processed (status mgr2) = length (getAllDocuments vt))"
    if h: "(\<forall>texts. \<exists>es. emb2 texts = Inr es) \<and> 0 < batchSize2" for emb2 rnds2 batchSize2
  proof -
    from h have e2: "\<forall>texts. \<exists>es. emb2 texts = Inr es" and b2: "0 < batchSize2" by simp_all
    obtain r2 mgr2 vt2 batches2 where run2:
      "start f32 arr d emb2 rnds2 (\<lambda>j. False) batchSize2 (mgr1, vt1) = (r2, mgr2, vt2, batches2)"
      by (metis prod_cases4)
    from start_ok[OF p(4) e2 b2 k1, of f32 arr d rnds2 "\<lambda>j. False"] run2 have r2: "r2 = None" by simp
    note q = start_post[OF p(4) run2]
    from q(6) r2 have ids: "map doc_id (concat batches2) = map doc_id (getAllDocuments vt1)"
      and c: "st_isComplete (status mgr2)"
      and t: "st_total (status mgr2) = length (getAllDocuments vt1)" by simp_all
    have pr: "st_processed (status mgr2) = length (getAllDocuments vt)" if "getAllDocuments vt \<noteq> []"
    proof -
      from ids have l2: "length (concat batches2) = length (getAllDocuments vt1)"
        by (metis length_map)
      with len that have "batches2 \<noteq> []" by auto
      with q(2) l2 len show ?thesis by simp
    qed
    from run2 r2 ids same c t len pr show ?thesis by auto
  qed
  from p(2) have zero: "st_processed (status mgr) = 0 \<longrightarrow>
      st_processed (status mgr1) = length (concat batches)" by simp
  from p(3) have fresh: "(\<exists>j \<le> length batches. stops j) \<and> \<not> st_isComplete (status mgr) \<longrightarrow>
      \<not> st_isComplete (status mgr1)" by simp
  from p(1) p(2) zero p(3) fresh same again show ?thesis by blast
qed

theorem migration_stop_witness:
  "\<not> isRunning new_manager \<and> docs_keyed (documents indexer0) \<and>
   start keep keep cosine embedder0 draws3 stop_in_round0 1 (new_manager, indexer0) =
     (None, manager1, indexer1, [[docA\<lparr> doc_embedding := Some [1, 0] \<rparr>]]) \<and>
   stop_in_round0 1 \<and> st_processed (status new_manager) = 0 \<and>
   st_processed (status manager1) = 1 \<and> \<not> st_isComplete (status new_manager) \<and>
   \<not> st_isComplete (status manager1) \<and>
   map doc_id (getAllDocuments indexer1) = map doc_id (getAllDocuments indexer0) \<and>
   (\<forall>texts. \<exists>es. embedder0 texts = Inr es) \<and> (0::nat) < 1 \<and>
   start keep keep cosine embedder0 draws3 (\<lambda>j. False) 1 (manager1, indexer1) =
     (None, manager2, indexer2,
      [[docA\<lparr> doc_embedding := Some [1, 0] \<rparr>], [docB\<lparr> doc_embedding := Some [1, 0] \<rparr>]]) \<and>
   st_isComplete (status manager2) \<and> st_total (status manager2) = 2 \<and>
   st_processed (status manager2) = 2"
proof -
  have idle: "\<not> isRunning new_manager" by (simp add: new_manager_def)
  have k: "docs_keyed (documents indexer0)"
    by (simp add: docs_keyed_def indexer0_def docA_def docB_def)
  have n: "never = (\<lambda>j. False)" by (simp add: never_def fun_eq_iff)
  have e: "\<forall>texts. \<exists>es. embedder0 texts = Inr es" by (simp add: embedder0_def)
  from migration_stop[OF idle k run1] idle run1 run2[unfolded n] k e
  show ?thesis
    by (simp add: stop_in_round0_def manager1_def manager2_def new_manager_def)
qed

subsection \<open>The degree bound as an invariant\<close>




end
